theory Spec2Isabelle
  imports Main "HOL-Library.Multiset"
begin

section \<open>Library values: URLs, responses, errors\<close>

text \<open>
  The fields of Go's \<open>net/url.URL\<close> that the audit package reads: \<open>Scheme\<close>, \<open>Host\<close> and
  \<open>Path\<close> directly, the query string and the fragment only through \<open>String()\<close>.
\<close>

record url =
  Scheme :: string
  Host :: string
  Path :: string
  RawQuery :: string
  Fragment :: string

text \<open>
  Go error values. The six sentinels are those of \<open>errors.go\<close>; \<open>Foreign\<close> is an error made
  by a collaborator or a library (fetcher, extractor, \<open>url.Parse\<close>, \<open>io.ReadAll\<close>,
  \<open>robotstxt.FromBytes\<close>); the other constructors are the \<open>fmt.Errorf\<close> calls of \<open>audit.go\<close>:
  \<open>WrapMsg m e\<close> is \<open>fmt.Errorf("m: %w", e)\<close>, \<open>WrapArg e s\<close> is \<open>fmt.Errorf("%w: %s", e, s)\<close>
  and \<open>BadStatus c\<close> is the status error of \<open>respectRobots\<close>.
\<close>

datatype error =
    ErrInvalidStartURL
  | ErrInvalidStartScheme
  | ErrInvalidMaxWorkers
  | ErrInvalidMaxDepth
  | ErrNoFetcher
  | ErrNoExtractor
  | Foreign string
  | WrapMsg string error
  | WrapArg error string
  | BadStatus int

fun itoa_nat :: "nat \<Rightarrow> string" where
  "itoa_nat n =
     (if n < 10 then [''0123456789'' ! n]
      else itoa_nat (n div 10) @ [''0123456789'' ! (n mod 10)])"

declare itoa_nat.simps [simp del]

definition itoa :: "int \<Rightarrow> string" where
  "itoa i = (if i < 0 then ''-'' @ itoa_nat (nat (- i)) else itoa_nat (nat i))"

text \<open>The text of an error, as its \<open>Error()\<close> method gives it.\<close>

fun Error :: "error \<Rightarrow> string" where
  "Error ErrInvalidStartURL = ''invalid start url''"
| "Error ErrInvalidStartScheme = ''invalid start url scheme''"
| "Error ErrInvalidMaxWorkers = ''invaild max workers''"
| "Error ErrInvalidMaxDepth = ''invalid max depth''"
| "Error ErrNoFetcher = ''no fetcher provided''"
| "Error ErrNoExtractor = ''no extractor provided''"
| "Error (Foreign m) = m"
| "Error (WrapMsg m e) = m @ '': '' @ Error e"
| "Error (WrapArg e s) = Error e @ '': '' @ s"
| "Error (BadStatus c) =
     ''robots.txt not found or returned non 200/404 status: '' @ itoa c"

text \<open>
  An HTTP response: its status code and what reading its body to the end yields (the
  bytes, or the error of the read).
\<close>

record response =
  StatusCode :: int
  Body :: "error + string"

type_synonym Fetcher = "url \<Rightarrow> error + response"
type_synonym Extractor = "url \<Rightarrow> error + string \<Rightarrow> error + string list"

text \<open>
  The functions of the Go standard library and of \<open>temoto/robotstxt\<close> that \<open>audit.go\<close>
  calls. They are parameters of the model: every general theorem below holds for each
  choice of them. \<open>'r\<close> is the type of parsed robots data.
\<close>

record 'r lib =
  url_Parse :: "string \<Rightarrow> error + url"
  ResolveReference :: "url \<Rightarrow> url \<Rightarrow> url"
  url_String :: "url \<Rightarrow> string"
  FromBytes :: "string \<Rightarrow> error + 'r"
  TestAgent :: "'r \<Rightarrow> string \<Rightarrow> string \<Rightarrow> bool"

subsection \<open>String helpers of package \<open>strings\<close>\<close>

definition HasPrefix :: "string \<Rightarrow> string \<Rightarrow> bool" where
  "HasPrefix s p = (take (length p) s = p)"

definition TrimPrefix :: "string \<Rightarrow> string \<Rightarrow> string" where
  "TrimPrefix s p = (if HasPrefix s p then drop (length p) s else s)"

definition HasSuffix :: "string \<Rightarrow> string \<Rightarrow> bool" where
  "HasSuffix s p = (length p \<le> length s \<and> drop (length s - length p) s = p)"

text \<open>\<open>strings.Split\<close> on a one-character separator: \<open>Split "a,,b" ","\<close> is \<open>["a", "", "b"]\<close>.\<close>

fun Split :: "string \<Rightarrow> char \<Rightarrow> string list" where
  "Split [] sep = [[]]"
| "Split (c # cs) sep =
     (if c = sep then [] # Split cs sep
      else (case Split cs sep of [] \<Rightarrow> [[c]] | w # ws \<Rightarrow> (c # w) # ws))"

section \<open>The audit package\<close>

record Config =
  LogLevel :: string
  StartURL :: string
  Agent :: string
  ValidSchemes :: string
  RespectRobots :: bool
  MaxWorkers :: int
  MaxDepth :: int

text \<open>
  A task is a URL and its depth. Go's \<open>int\<close> is modelled by \<open>int\<close>: the only arithmetic
  is \<open>depth + 1\<close> on a task that was enqueued, whose depth is 0 or below \<open>MaxDepth\<close>, so
  no addition wraps.
\<close>

record task =
  task_u :: url
  task_depth :: int

text \<open>
  The struct \<open>Audit\<close>. The set is a HOL set, the queue a list (enqueue at the end, dequeue
  at the head), the graph the list of its edges \<open>(from, to, weight)\<close> in the order of the
  \<open>AddEdge\<close> calls; its nodes are the end points of its edges. The logger is left out; the
  wait group and the mutex are the scheduler below.
\<close>

record 'r Audit =
  config :: Config
  fetcher :: Fetcher
  extractor :: Extractor
  startURL :: url
  schemes :: "string set"
  robotsData :: "'r option"
  tasks :: "task list"
  visited :: "string set"
  siteGraph :: "(string \<times> string \<times> int) list"

definition graph_nodes :: "(string \<times> string \<times> int) list \<Rightarrow> string set" where
  "graph_nodes g = fst ` set g \<union> (fst \<circ> snd) ` set g"

definition New :: "'r lib \<Rightarrow> Config \<Rightarrow> Fetcher option \<Rightarrow> Extractor option \<Rightarrow> error + 'r Audit" where
  "New lib c f e =
     (case f of None \<Rightarrow> Inl ErrNoFetcher
      | Some fetch \<Rightarrow>
     (case e of None \<Rightarrow> Inl ErrNoExtractor
      | Some extract \<Rightarrow>
     (case url_Parse lib (StartURL c) of
        Inl err \<Rightarrow> Inl (WrapArg ErrInvalidStartURL (StartURL c))
      | Inr start \<Rightarrow>
          if StartURL c = [] then Inl (WrapArg ErrInvalidStartURL (StartURL c))
          else if Scheme start = [] then Inl (WrapArg ErrInvalidStartScheme (StartURL c))
          else if MaxWorkers c < 0 then Inl ErrInvalidMaxWorkers
          else if MaxDepth c < 0 then Inl ErrInvalidMaxDepth
          else Inr \<lparr> config = c, fetcher = fetch, extractor = extract, startURL = start,
                 schemes = (if ValidSchemes c \<noteq> []
                            then {''https''} \<union> set (Split (ValidSchemes c) CHR '','')
                            else {''https''}),
                 robotsData = None, tasks = [], visited = {}, siteGraph = [] \<rparr>)))"

definition normaliseHost :: "string \<Rightarrow> string" where
  "normaliseHost host = TrimPrefix host ''www.''"

definition normaliseURL :: "url \<Rightarrow> string" where
  "normaliseURL v =
     (let path = Path v;
          path = (if length path > 1 \<and> HasSuffix path ''/''
                  then take (length path - 1) path else path);
          path = (if path = [] then ''/'' else path)
      in Scheme v @ ''://'' @ Host v @ path)"

text \<open>The body of the loop of \<open>processLinks\<close>, for one link string.\<close>

definition processLink :: "'r lib \<Rightarrow> task \<Rightarrow> 'r Audit \<Rightarrow> string \<Rightarrow> 'r Audit" where
  "processLink lib t a linkString =
     (let baseURL = task_u t;
          baseHost = normaliseHost (Host baseURL)
      in case url_Parse lib linkString of
           Inl err \<Rightarrow> a
         | Inr parsedLink \<Rightarrow>
             let resolvedLink = ResolveReference lib baseURL parsedLink;
                 resolvedHost = normaliseHost (Host resolvedLink)
             in if Scheme resolvedLink \<notin> schemes a then a
                else if baseHost \<noteq> resolvedHost then a
                else if (case robotsData a of None \<Rightarrow> False
                         | Some rd \<Rightarrow> \<not> TestAgent lib rd (Path resolvedLink) (Agent (config a)))
                then a
                else let canonicalURL = normaliseURL resolvedLink
                  in if canonicalURL \<in> visited a then a
                     else let a1 = a \<lparr> visited := insert canonicalURL (visited a),
                                       siteGraph := siteGraph a @
                                         [(normaliseURL baseURL, canonicalURL, 1)] \<rparr>
                       in if task_depth t + 1 < MaxDepth (config a)
                          then a1 \<lparr> tasks := tasks a1 @
                                 [\<lparr> task_u = resolvedLink, task_depth = task_depth t + 1 \<rparr>] \<rparr>
                          else a1)"

definition processLinks :: "'r lib \<Rightarrow> 'r Audit \<Rightarrow> task \<Rightarrow> string list \<Rightarrow> 'r Audit" where
  "processLinks lib a t links = foldl (processLink lib t) a links"

subsection \<open>Workers and the crawl\<close>

text \<open>
  Where a worker is in \<open>startWorker\<close>: at the head of its loop, between its dequeue and
  its fetch (holding the task), or returned. \<open>deferred\<close> are the responses whose
  \<open>defer response.Body.Close()\<close> has been registered and has not run yet: Go runs deferred
  calls when the function returns.
\<close>

datatype pc = LoopHead | Dequeued task | Returned

record worker =
  pc :: pc
  deferred :: "response list"

text \<open>
  The state of one crawl: the \<open>Audit\<close>, the workers of its pool, the calls made to the
  fetcher so far (the URL of each, in order), and whether the context is cancelled.
\<close>

record 'r crawl =
  audit :: "'r Audit"
  workers :: "worker list"
  fetchTrace :: "url list"
  cancelled :: bool

definition respectRobots :: "'r lib \<Rightarrow> 'r crawl \<Rightarrow> 'r crawl \<times> error option" where
  "respectRobots lib s =
     (let a = audit s;
          robotsURL = Scheme (startURL a) @ ''://'' @ Host (startURL a) @ ''/robots.txt''
      in case url_Parse lib robotsURL of
           Inl err \<Rightarrow> (s, Some (WrapMsg ''error creating robots url'' err))
         | Inr robots \<Rightarrow>
             let s1 = s \<lparr> fetchTrace := fetchTrace s @ [robots] \<rparr>
             in case fetcher a robots of
                  Inl err \<Rightarrow> (s1, Some (WrapMsg ''error fetching robots.txt'' err))
                | Inr resp \<Rightarrow>
                    if StatusCode resp = 404
                    then (s1 \<lparr> audit := a \<lparr> visited := insert robotsURL (visited a) \<rparr> \<rparr>, None)
                    else if StatusCode resp \<noteq> 200
                    then (s1, Some (BadStatus (StatusCode resp)))
                    else (case Body resp of
                            Inl err \<Rightarrow> (s1, Some (WrapMsg ''error reading response body'' err))
                          | Inr b \<Rightarrow>
                         (case FromBytes lib b of
                            Inl err \<Rightarrow> (s1, Some (WrapMsg ''error parsing robots.txt data'' err))
                          | Inr rd \<Rightarrow>
                              (s1 \<lparr> audit := a \<lparr> robotsData := Some rd,
                                      visited := insert robotsURL (visited a) \<rparr> \<rparr>, None))))"

text \<open>
  One atomic section of worker \<open>i\<close>. From the loop head: the check of the context and
  the critical section that dequeues or returns (running the deferred calls). Holding a
  task: the fetch, the checks, the extraction and the critical section of
  \<open>processLinks\<close>; fetch and extraction touch no shared state, so they are taken together
  with the critical section that follows them, and a fetch enters the trace when its
  section runs.
\<close>

definition startWorker_step :: "'r lib \<Rightarrow> nat \<Rightarrow> 'r crawl \<Rightarrow> 'r crawl" where
  "startWorker_step lib i s =
     (if length (workers s) \<le> i then s
      else let w = workers s ! i; a = audit s
       in case pc w of
            Returned \<Rightarrow> s
          | LoopHead \<Rightarrow>
              if cancelled s
              then s \<lparr> workers := (workers s)[i := \<lparr> pc = Returned, deferred = [] \<rparr>] \<rparr>
              else (case tasks a of
                      [] \<Rightarrow> s \<lparr> workers := (workers s)[i := \<lparr> pc = Returned, deferred = [] \<rparr>] \<rparr>
                    | t # q \<Rightarrow> s \<lparr> audit := a \<lparr> tasks := q \<rparr>,
                                 workers := (workers s)[i := w \<lparr> pc := Dequeued t \<rparr>] \<rparr>)
          | Dequeued t \<Rightarrow>
              let s1 = s \<lparr> fetchTrace := fetchTrace s @ [task_u t] \<rparr>
              in case fetcher a (task_u t) of
                   Inl err \<Rightarrow> s1 \<lparr> workers := (workers s)[i := w \<lparr> pc := LoopHead \<rparr>] \<rparr>
                 | Inr resp \<Rightarrow>
                     let w1 = w \<lparr> pc := LoopHead, deferred := resp # deferred w \<rparr>
                     in if StatusCode resp \<ge> 400
                        then s1 \<lparr> workers := (workers s)[i := w1] \<rparr>
                        else (case extractor a (task_u t) (Body resp) of
                                Inl err \<Rightarrow> s1 \<lparr> workers := (workers s)[i := w1] \<rparr>
                              | Inr links \<Rightarrow>
                                  s1 \<lparr> audit := processLinks lib a t links,
                                       workers := (workers s)[i := w1] \<rparr>))"

text \<open>What the scheduler lets happen next: worker \<open>i\<close> runs one section, or the context is cancelled.\<close>

datatype event = Run nat | Cancel

fun exec :: "'r lib \<Rightarrow> 'r crawl \<Rightarrow> event \<Rightarrow> 'r crawl" where
  "exec lib s (Run i) = startWorker_step lib i s"
| "exec lib s Cancel = s \<lparr> cancelled := True \<rparr>"

definition run :: "'r lib \<Rightarrow> 'r crawl \<Rightarrow> event list \<Rightarrow> 'r crawl" where
  "run lib s sched = foldl (exec lib) s sched"

definition all_returned :: "'r crawl \<Rightarrow> bool" where
  "all_returned s = list_all (\<lambda>w. pc w = Returned) (workers s)"

text \<open>The state in which \<open>Start\<close> finds a freshly constructed \<open>Audit\<close>.\<close>

definition fresh :: "'r Audit \<Rightarrow> 'r crawl" where
  "fresh a = \<lparr> audit = a, workers = [], fetchTrace = [], cancelled = False \<rparr>"

text \<open>\<open>Start\<close> up to the launch of the workers: the robots preflight, the seed, the pool.\<close>

definition launch :: "'r lib \<Rightarrow> 'r crawl \<Rightarrow> 'r crawl \<times> error option" where
  "launch lib s =
     (case (if RespectRobots (config (audit s)) then respectRobots lib s else (s, None)) of
        (s1, Some err) \<Rightarrow> (s1, Some (WrapMsg ''failed to respect robots'' err))
      | (s1, None) \<Rightarrow>
          let a = audit s1
          in (s1 \<lparr> audit := a \<lparr> tasks := tasks a @ [\<lparr> task_u = startURL a, task_depth = 0 \<rparr>],
                                visited := insert (url_String lib (startURL a)) (visited a) \<rparr>,
                   workers := replicate (nat (MaxWorkers (config a)))
                                \<lparr> pc = LoopHead, deferred = [] \<rparr> \<rparr>, None))"

text \<open>
  \<open>Start\<close> under a schedule. \<open>None\<close>: the schedule ended with \<open>wg.Wait()\<close> still blocked;
  \<open>Some (s, err)\<close>: \<open>Start\<close> returned \<open>err\<close> and left the state \<open>s\<close>.
\<close>

definition Start :: "'r lib \<Rightarrow> event list \<Rightarrow> 'r Audit \<Rightarrow> ('r crawl \<times> error option) option" where
  "Start lib sched a =
     (case launch lib (fresh a) of
        (s1, Some err) \<Rightarrow> Some (s1, Some err)
      | (s2, None) \<Rightarrow>
          let s3 = run lib s2 sched
          in if all_returned s3 then Some (s3, None) else None)"

subsection \<open>Derived notions used to state properties\<close>

text \<open>
  The links that a worker holding task \<open>t\<close> hands to \<open>processLinks\<close>: none when the fetch
  fails, when the status is 400 or more, or when the extraction fails.
\<close>

definition fetched_links :: "'r Audit \<Rightarrow> task \<Rightarrow> string list option" where
  "fetched_links a t =
     (case fetcher a (task_u t) of
        Inl err \<Rightarrow> None
      | Inr resp \<Rightarrow>
          if StatusCode resp \<ge> 400 then None
          else (case extractor a (task_u t) (Body resp) of
                  Inl err \<Rightarrow> None
                | Inr links \<Rightarrow> Some links))"

text \<open>Whether \<open>processLinks\<close> lets a resolved link through its scheme, host and robots filters.\<close>

definition accepted :: "'r lib \<Rightarrow> 'r Audit \<Rightarrow> task \<Rightarrow> url \<Rightarrow> bool" where
  "accepted lib a t r =
     (Scheme r \<in> schemes a \<and>
      normaliseHost (Host (task_u t)) = normaliseHost (Host r) \<and>
      (case robotsData a of None \<Rightarrow> True
       | Some rd \<Rightarrow> TestAgent lib rd (Path r) (Agent (config a))))"

text \<open>
  The resolved links of a page that pass the three filters, in the order of the page.
\<close>

definition passing :: "'r lib \<Rightarrow> 'r Audit \<Rightarrow> task \<Rightarrow> string list \<Rightarrow> url list" where
  "passing lib a t ls =
     filter (accepted lib a t)
       (concat (map (\<lambda>l. case url_Parse lib l of Inl err \<Rightarrow> []
                          | Inr p \<Rightarrow> [ResolveReference lib (task_u t) p]) ls))"

text \<open>The tasks that workers hold: dequeued and not yet fetched.\<close>

fun held_of :: "pc \<Rightarrow> task multiset" where
  "held_of (Dequeued t) = {#t#}"
| "held_of LoopHead = {#}"
| "held_of Returned = {#}"

definition held :: "'r crawl \<Rightarrow> task multiset" where
  "held s = (\<Sum>w\<leftarrow>workers s. held_of (pc w))"

text \<open>
  The URLs accounted for in a state: of the tasks in the queue, of the tasks that
  workers hold, and of the fetches made.
\<close>

definition accounted :: "'r crawl \<Rightarrow> url multiset" where
  "accounted s =
     mset (map task_u (tasks (audit s))) + image_mset task_u (held s) + mset (fetchTrace s)"

text \<open>The fetches that a run from state \<open>s\<close> adds to the trace.\<close>

definition fetched_by :: "'r lib \<Rightarrow> 'r crawl \<Rightarrow> event list \<Rightarrow> url list" where
  "fetched_by lib s sched = drop (length (fetchTrace s)) (fetchTrace (run lib s sched))"

text \<open>
  A ranking of states for termination: a task of depth \<open>d\<close> is \<open>MaxDepth - d\<close> hops short
  of the depth limit; every queued task, every worker and the context carry a weight.
\<close>

definition hops_left :: "Config \<Rightarrow> task \<Rightarrow> nat" where
  "hops_left c t = nat (MaxDepth c - task_depth t)"

fun pc_weight :: "Config \<Rightarrow> pc \<Rightarrow> nat" where
  "pc_weight c Returned = 0"
| "pc_weight c LoopHead = 1"
| "pc_weight c (Dequeued t) = 3 * hops_left c t + 3"

definition crawl_weight :: "'r crawl \<Rightarrow> nat multiset" where
  "crawl_weight s =
     mset (map (\<lambda>t. 3 * hops_left (config (audit s)) t + 4) (tasks (audit s))) +
     mset (map (\<lambda>w. pc_weight (config (audit s)) (pc w)) (workers s)) +
     (if cancelled s then {#} else {#0#})"

text \<open>A step that changes the state.\<close>

definition effective :: "'r lib \<Rightarrow> 'r crawl \<Rightarrow> 'r crawl \<Rightarrow> bool" where
  "effective lib s s' = (s' \<noteq> s \<and> s' \<in> range (exec lib s))"

text \<open>
  A state is quiescent when, if every worker of a non-empty pool has returned and the
  context is not cancelled, the queue is empty.
\<close>

definition quiescent :: "'r crawl \<Rightarrow> bool" where
  "quiescent s = (all_returned s \<and> workers s \<noteq> [] \<and> \<not> cancelled s \<longrightarrow> tasks (audit s) = [])"

section \<open>Example sites\<close>

text \<open>
  The library functions at the inputs of the examples: \<open>url.Parse\<close> as a table of the
  strings used, \<open>ResolveReference\<close> for references that are absolute URLs or absolute
  paths, \<open>String\<close> for URLs with a scheme and a host, and robots data as the list of
  disallowed path prefixes.
\<close>

definition seed_url :: url where
  "seed_url = \<lparr> Scheme = ''https'', Host = ''example.com'', Path = [], RawQuery = [], Fragment = [] \<rparr>"

definition reference :: "string \<Rightarrow> url" where
  "reference p = \<lparr> Scheme = [], Host = [], Path = p, RawQuery = [], Fragment = [] \<rparr>"

definition test_Parse :: "string \<Rightarrow> error + url" where
  "test_Parse s =
     (if s = ''https://example.com'' then Inr seed_url
      else if s = ''https://example.com/robots.txt'' then Inr (seed_url \<lparr> Path := ''/robots.txt'' \<rparr>)
      else if s = ''https://example.com/forbidden'' then Inr (seed_url \<lparr> Path := ''/forbidden'' \<rparr>)
      else if s = ''http://somethingelse.com'' then
        Inr \<lparr> Scheme = ''http'', Host = ''somethingelse.com'', Path = [], RawQuery = [], Fragment = [] \<rparr>
      else if s = ''ftp://example.com/file'' then
        Inr \<lparr> Scheme = ''ftp'', Host = ''example.com'', Path = ''/file'', RawQuery = [], Fragment = [] \<rparr>
      else if s = ''http://example.com/'' then
        Inr \<lparr> Scheme = ''http'', Host = ''example.com'', Path = ''/'', RawQuery = [], Fragment = [] \<rparr>
      else if s = ''https://example.com/page-a'' then Inr (seed_url \<lparr> Path := ''/page-a'' \<rparr>)
      else if s = ''/'' then Inr (reference ''/'')
      else if s = ''/page-a'' then Inr (reference ''/page-a'')
      else if s = ''/page-b'' then Inr (reference ''/page-b'')
      else Inl (Foreign ''parse error''))"

definition test_Resolve :: "url \<Rightarrow> url \<Rightarrow> url" where
  "test_Resolve base ref =
     (if Scheme ref = [] \<and> Host ref = []
      then ref \<lparr> Scheme := Scheme base, Host := Host base \<rparr>
      else ref)"

definition test_String :: "url \<Rightarrow> string" where
  "test_String v =
     Scheme v @ ''://'' @ Host v @ Path v @
     (if RawQuery v = [] then [] else ''?'' @ RawQuery v) @
     (if Fragment v = [] then [] else ''#'' @ Fragment v)"

definition test_lib :: "string list lib" where
  "test_lib = \<lparr> url_Parse = test_Parse, ResolveReference = test_Resolve,
       url_String = test_String,
       FromBytes = (\<lambda>b. if b = ''Disallow: /forbidden'' then Inr [''/forbidden'']
                         else Inl (Foreign ''unsupported'')),
       TestAgent = (\<lambda>rd path agent. \<not> list_ex (HasPrefix path) rd) \<rparr>"

definition test_config :: Config where
  "test_config = \<lparr> LogLevel = ''info'', StartURL = ''https://example.com'', Agent = ''agent'',
       ValidSchemes = ''https,http'', RespectRobots = False, MaxWorkers = 5, MaxDepth = 2 \<rparr>"

text \<open>
  A fetcher over a table of pages (URL text and body), answering 404 elsewhere, and an
  extractor over a table of bodies and their links.
\<close>

definition table_fetch :: "(string \<times> int \<times> string) list \<Rightarrow> Fetcher" where
  "table_fetch pages v =
     (case map_of pages (test_String v) of
        Some (code, b) \<Rightarrow> Inr \<lparr> StatusCode = code, Body = Inr b \<rparr>
      | None \<Rightarrow> Inr \<lparr> StatusCode = 404, Body = Inr [] \<rparr>)"

definition table_extract :: "(string \<times> string list) list \<Rightarrow> Extractor" where
  "table_extract t v b =
     (case b of Inl err \<Rightarrow> Inl err
      | Inr text \<Rightarrow> (case map_of t text of Some links \<Rightarrow> Inr links | None \<Rightarrow> Inr []))"

text \<open>The chain of three pages: the seed links to page A, page A to page B.\<close>

definition chain_fetch :: Fetcher where
  "chain_fetch = table_fetch
     [(''https://example.com'', 200, ''to A''),
      (''https://example.com/page-a'', 200, ''to B''),
      (''https://example.com/page-b'', 200, ''Page B'')]"

definition chain_extract :: Extractor where
  "chain_extract = table_extract [(''to A'', [''/page-a'']), (''to B'', [''/page-b''])]"

definition page_a :: url where
  "page_a = seed_url \<lparr> Path := ''/page-a'' \<rparr>"

definition page_b :: url where
  "page_b = seed_url \<lparr> Path := ''/page-b'' \<rparr>"

definition audit_of :: "Config \<Rightarrow> Fetcher \<Rightarrow> Extractor \<Rightarrow> string list Audit" where
  "audit_of c f e = \<lparr> config = c, fetcher = f, extractor = e, startURL = seed_url,
       schemes = {''https'', ''http''}, robotsData = None, tasks = [], visited = {},
       siteGraph = [] \<rparr>"

definition chain_audit :: "string list Audit" where
  "chain_audit = audit_of test_config chain_fetch chain_extract"

text \<open>A site whose seed page links back to the site root, crawled by one worker.\<close>

definition home_fetch :: Fetcher where
  "home_fetch = table_fetch [(''https://example.com'', 200, ''home'')]"

definition home_extract :: Extractor where
  "home_extract = table_extract [(''home'', [''/''])]"

definition home_audit :: "string list Audit" where
  "home_audit = audit_of (test_config \<lparr> MaxWorkers := 1 \<rparr>) home_fetch home_extract"

text \<open>A seed page answered with status 302 and a body that links to page A.\<close>

definition moved_fetch :: Fetcher where
  "moved_fetch = table_fetch [(''https://example.com'', 302, ''to A'')]"

definition moved_audit :: "string list Audit" where
  "moved_audit = audit_of (test_config \<lparr> MaxWorkers := 1 \<rparr>) moved_fetch chain_extract"

text \<open>A fetcher that fails on every URL.\<close>

definition failing_fetch :: Fetcher where
  "failing_fetch v = Inl (Foreign ''fetch error'')"

definition failing_audit :: "string list Audit" where
  "failing_audit = audit_of test_config failing_fetch chain_extract"

text \<open>The chain with robots compliance on: \<open>robots.txt\<close> is not in the table, hence 404.\<close>

definition robots_audit :: "string list Audit" where
  "robots_audit = audit_of (test_config \<lparr> RespectRobots := True \<rparr>) chain_fetch chain_extract"

text \<open>A site whose \<open>robots.txt\<close> is answered with status 403.\<close>

definition forbidden_fetch :: Fetcher where
  "forbidden_fetch = table_fetch [(''https://example.com/robots.txt'', 403, ''FORBIDDEN!'')]"

definition forbidden_audit :: "string list Audit" where
  "forbidden_audit =
     audit_of (test_config \<lparr> RespectRobots := True \<rparr>) forbidden_fetch chain_extract"

text \<open>The chain under robots data that disallow the paths starting with \<open>/forbidden\<close>.\<close>

definition guarded_audit :: "string list Audit" where
  "guarded_audit = chain_audit \<lparr> robotsData := Some [''/forbidden''] \<rparr>"

text \<open>
  A site with the seed \<open>http://example.com/\<close> and the default allow-list: the seed page
  links to page A over \<open>https\<close> and to the root \<open>/\<close>; one worker.
\<close>

definition http_seed :: url where
  "http_seed = \<lparr> Scheme = ''http'', Host = ''example.com'', Path = ''/'', RawQuery = [], Fragment = [] \<rparr>"

definition plain_config :: Config where
  "plain_config = \<lparr> LogLevel = ''info'', StartURL = ''http://example.com/'', Agent = ''agent'',
       ValidSchemes = [], RespectRobots = False, MaxWorkers = 1, MaxDepth = 2 \<rparr>"

definition plain_fetch :: Fetcher where
  "plain_fetch = table_fetch [(''http://example.com/'', 200, ''mixed'')]"

definition plain_extract :: Extractor where
  "plain_extract = table_extract [(''mixed'', [''https://example.com/page-a'', ''/''])]"

definition plain_audit :: "string list Audit" where
  "plain_audit = \<lparr> config = plain_config, fetcher = plain_fetch, extractor = plain_extract,
       startURL = http_seed, schemes = {''https''}, robotsData = None, tasks = [], visited = {},
       siteGraph = [] \<rparr>"

text \<open>
  A fetcher that answers \<open>robots.txt\<close> with status 404 and fails on every other URL, and
  the site with this fetcher and robots compliance on.
\<close>

definition stalled_fetch :: Fetcher where
  "stalled_fetch v =
     (if Path v = ''/robots.txt'' then Inr \<lparr> StatusCode = 404, Body = Inr [] \<rparr>
      else Inl (Foreign ''fetch error''))"

definition stalled_audit :: "string list Audit" where
  "stalled_audit = audit_of (test_config \<lparr> RespectRobots := True \<rparr>) stalled_fetch chain_extract"

text \<open>The failing fetcher with robots compliance on.\<close>

definition offline_audit :: "string list Audit" where
  "offline_audit = audit_of (test_config \<lparr> RespectRobots := True \<rparr>) failing_fetch chain_extract"

text \<open>A single worker running six sections in a row.\<close>

definition one_worker :: "event list" where
  "one_worker = [Run 0, Run 0, Run 0, Run 0, Run 0, Run 0]"

text \<open>
  A schedule of five workers: worker 0 takes the seed, worker 1 finds the queue empty
  and returns, worker 0 processes the seed, worker 2 takes page A, worker 3 finds the
  queue empty and returns, worker 2 processes page A, and the others return.
\<close>

definition five_workers :: "event list" where
  "five_workers = [Run 0, Run 1, Run 0, Run 2, Run 3, Run 2, Run 0, Run 2, Run 4]"

text \<open>
  The stages of the crawl of the chain, as queue, held tasks, fetches, graph and visited
  set; \<open>chain_pool n\<close> is the chain crawled by \<open>n\<close> workers.
\<close>

definition seed_task :: task where
  "seed_task = \<lparr> task_u = seed_url, task_depth = 0 \<rparr>"

definition page_a_task :: task where
  "page_a_task = \<lparr> task_u = page_a, task_depth = 1 \<rparr>"

definition progress :: "'r crawl \<Rightarrow> task list \<times> task multiset \<times> url list \<times> (string \<times> string \<times> int) list \<times> string set" where
  "progress s = (tasks (audit s), held s, fetchTrace s, siteGraph (audit s), visited (audit s))"

definition chain_stages :: "(task list \<times> task multiset \<times> url list \<times> (string \<times> string \<times> int) list \<times> string set) list" where
  "chain_stages =
     [([seed_task], {#}, [], [], {''https://example.com''}),
      ([], {#seed_task#}, [], [], {''https://example.com''}),
      ([page_a_task], {#}, [seed_url],
         [(''https://example.com/'', ''https://example.com/page-a'', 1)],
         {''https://example.com'', ''https://example.com/page-a''}),
      ([], {#page_a_task#}, [seed_url],
         [(''https://example.com/'', ''https://example.com/page-a'', 1)],
         {''https://example.com'', ''https://example.com/page-a''}),
      ([], {#}, [seed_url, page_a],
         [(''https://example.com/'', ''https://example.com/page-a'', 1),
          (''https://example.com/page-a'', ''https://example.com/page-b'', 1)],
         {''https://example.com'', ''https://example.com/page-a'', ''https://example.com/page-b''})]"

definition chain_site :: "string list Audit \<Rightarrow> bool" where
  "chain_site a = (MaxDepth (config a) = 2 \<and> schemes a = {''https'', ''http''} \<and> robotsData a = None
     \<and> fetched_links a seed_task = Some [''/page-a'']
     \<and> fetched_links a page_a_task = Some [''/page-b''])"

definition chain_pool :: "int \<Rightarrow> string list Audit" where
  "chain_pool n = chain_audit \<lparr> config := test_config \<lparr> MaxWorkers := n \<rparr> \<rparr>"

section \<open>Canonical keys\<close>

lemma HasSuffix_slash: "HasSuffix p ''/'' \<longleftrightarrow> p \<noteq> [] \<and> last p = CHR ''/''"
  apply (cases p rule: rev_cases)
  by (auto simp: HasSuffix_def)

lemma HasSuffix_slash2: "HasSuffix p ''//'' \<longleftrightarrow> (\<exists>q. p = q @ ''//'')"
  apply (auto simp: HasSuffix_def)
  by (metis append_take_drop_id)

lemma normaliseURL_key:
  "normaliseURL v = Scheme v @ ''://'' @ Host v @
     (if Path v = [] then ''/'' else if length (Path v) > 1 \<and> HasSuffix (Path v) ''/'' then butlast (Path v) else Path v)"
  apply (cases "Path v" rule: rev_cases)
  by (auto simp: normaliseURL_def Let_def HasSuffix_slash butlast_conv_take)

lemma normaliseURL_idem:
  assumes "\<not> (length (Path v) > 2 \<and> HasSuffix (Path v) ''//'')"
    and "normaliseURL v = Scheme v @ ''://'' @ Host v @ p"
  shows "normaliseURL (v \<lparr> Path := p, RawQuery := [], Fragment := [] \<rparr>) = normaliseURL v"
proof -
  have p: "p = (if Path v = [] then ''/'' else if length (Path v) > 1 \<and> HasSuffix (Path v) ''/'' then butlast (Path v) else Path v)"
    using assms(2) unfolding normaliseURL_key by simp
  show ?thesis
  proof (cases "Path v" rule: rev_cases)
    case Nil
    then show ?thesis using p by (simp add: normaliseURL_key HasSuffix_slash)
  next
    case (snoc q c)
    show ?thesis
    proof (cases q rule: rev_cases)
      case Nil
      then show ?thesis using p snoc by (simp add: normaliseURL_key HasSuffix_slash)
    next
      case (snoc q' d)
      then show ?thesis using p \<open>Path v = q @ [c]\<close> assms(1)
        by (auto simp add: normaliseURL_key HasSuffix_slash HasSuffix_slash2 butlast_append)
    qed
  qed
qed

lemma normaliseURL_slash:
  assumes "p \<noteq> []" and "p = ''/'' \<or> \<not> HasSuffix p ''/''"
  shows "normaliseURL (v \<lparr> Path := p @ ''/'' \<rparr>) = normaliseURL (v \<lparr> Path := p \<rparr>)"
  using assms by (auto simp: normaliseURL_key HasSuffix_slash)

lemma normaliseURL_query:
  assumes "Scheme v = Scheme w" "Host v = Host w" "Path v = Path w"
  shows "normaliseURL v = normaliseURL w"
  using assms by (simp add: normaliseURL_def)

section \<open>Link processing\<close>

lemma processLink_eq:
  "processLink lib t a l =
     (case url_Parse lib l of
        Inl err \<Rightarrow> a
      | Inr p \<Rightarrow>
          let r = ResolveReference lib (task_u t) p in
          if accepted lib a t r \<and> normaliseURL r \<notin> visited a
          then a \<lparr> visited := insert (normaliseURL r) (visited a),
                   siteGraph := siteGraph a @ [(normaliseURL (task_u t), normaliseURL r, 1)],
                   tasks := tasks a @
                     (if task_depth t + 1 < MaxDepth (config a)
                      then [\<lparr> task_u = r, task_depth = task_depth t + 1 \<rparr>] else []) \<rparr>
          else a)"
  by (auto simp: processLink_def accepted_def Let_def split: sum.splits option.splits)

lemma processLink_frame [simp]:
  "config (processLink lib t a l) = config a"
  "fetcher (processLink lib t a l) = fetcher a"
  "extractor (processLink lib t a l) = extractor a"
  "startURL (processLink lib t a l) = startURL a"
  "schemes (processLink lib t a l) = schemes a"
  "robotsData (processLink lib t a l) = robotsData a"
  by (simp_all add: processLink_eq Let_def split: sum.splits)

lemma processLinks_Nil [simp]: "processLinks lib a t [] = a"
  by (simp add: processLinks_def)

lemma processLinks_Cons [simp]:
  "processLinks lib a t (l # ls) = processLinks lib (processLink lib t a l) t ls"
  by (simp add: processLinks_def)

lemma processLinks_frame [simp]:
  "config (processLinks lib a t ls) = config a"
  "fetcher (processLinks lib a t ls) = fetcher a"
  "extractor (processLinks lib a t ls) = extractor a"
  "startURL (processLinks lib a t ls) = startURL a"
  "schemes (processLinks lib a t ls) = schemes a"
  "robotsData (processLinks lib a t ls) = robotsData a"
  by (induction ls arbitrary: a; simp)+

lemma processLink_tasks:
  "\<exists>new. tasks (processLink lib t a l) = tasks a @ new \<and>
     (\<forall>x\<in>set new. task_depth x = task_depth t + 1 \<and> task_depth x < MaxDepth (config a))"
  by (simp add: processLink_eq Let_def split: sum.splits)

lemma processLinks_tasks:
  "\<exists>new. tasks (processLinks lib a t ls) = tasks a @ new \<and>
     (\<forall>x\<in>set new. task_depth x = task_depth t + 1 \<and> task_depth x < MaxDepth (config a))"
proof (induction ls arbitrary: a)
  case Nil
  then show ?case by simp
next
  case (Cons l ls)
  obtain n1 where n1: "tasks (processLink lib t a l) = tasks a @ n1"
    "\<forall>x\<in>set n1. task_depth x = task_depth t + 1 \<and> task_depth x < MaxDepth (config a)"
    using processLink_tasks by blast
  obtain n2 where n2: "tasks (processLinks lib (processLink lib t a l) t ls) = tasks (processLink lib t a l) @ n2"
    "\<forall>x\<in>set n2. task_depth x = task_depth t + 1 \<and> task_depth x < MaxDepth (config a)"
    using Cons.IH[of "processLink lib t a l"] by auto
  show ?case
    apply (rule exI[of _ "n1 @ n2"])
    using n1 n2 by auto
qed

lemma processLink_visited_mono: "visited a \<subseteq> visited (processLink lib t a l)"
  by (auto simp add: processLink_eq Let_def split: sum.splits)

lemma processLinks_visited_mono: "visited a \<subseteq> visited (processLinks lib a t ls)"
  apply (induction ls arbitrary: a) apply simp
  using processLink_visited_mono by fastforce

section \<open>Steps of a worker\<close>

lemma startWorker_step_cases:
  fixes lib :: "'r lib" and s :: "'r crawl" and i :: nat
  obtains (stutter) "startWorker_step lib i s = s"
  | (exit) "i < length (workers s)" "pc (workers s ! i) = LoopHead"
      "cancelled s \<or> tasks (audit s) = []"
      "startWorker_step lib i s =
         s \<lparr> workers := (workers s)[i := \<lparr> pc = Returned, deferred = [] \<rparr>] \<rparr>"
  | (dequeue) t q where "i < length (workers s)" "pc (workers s ! i) = LoopHead"
      "\<not> cancelled s" "tasks (audit s) = t # q"
      "startWorker_step lib i s =
         s \<lparr> audit := (audit s) \<lparr> tasks := q \<rparr>,
             workers := (workers s)[i := (workers s ! i) \<lparr> pc := Dequeued t \<rparr>] \<rparr>"
  | (process) t d where "i < length (workers s)" "pc (workers s ! i) = Dequeued t"
      "startWorker_step lib i s =
         s \<lparr> fetchTrace := fetchTrace s @ [task_u t],
             audit := (case fetched_links (audit s) t of None \<Rightarrow> audit s
                       | Some ls \<Rightarrow> processLinks lib (audit s) t ls),
             workers := (workers s)[i := \<lparr> pc = LoopHead, deferred = d \<rparr>] \<rparr>"
proof (cases "i < length (workers s)")
  case False
  then have "startWorker_step lib i s = s" by (simp add: startWorker_step_def)
  then show ?thesis by (rule stutter)
next
  case len: True
  show ?thesis
  proof (cases "pc (workers s ! i)")
    case Returned
    then have "startWorker_step lib i s = s" using len by (simp add: startWorker_step_def)
    then show ?thesis by (rule stutter)
  next
    case LoopHead
    show ?thesis
    proof (cases "cancelled s \<or> tasks (audit s) = []")
      case True
      then have "startWorker_step lib i s =
         s \<lparr> workers := (workers s)[i := \<lparr> pc = Returned, deferred = [] \<rparr>] \<rparr>"
        using len LoopHead by (auto simp add: startWorker_step_def Let_def)
      then show ?thesis using exit len LoopHead True by blast
    next
      case False
      then obtain t q where tq: "tasks (audit s) = t # q" by (cases "tasks (audit s)") auto
      have "startWorker_step lib i s =
         s \<lparr> audit := (audit s) \<lparr> tasks := q \<rparr>,
             workers := (workers s)[i := (workers s ! i) \<lparr> pc := Dequeued t \<rparr>] \<rparr>"
        using len LoopHead False tq by (simp add: startWorker_step_def Let_def)
      then show ?thesis using dequeue len LoopHead False tq by blast
    qed
  next
    case (Dequeued t)
    have "\<exists>d. startWorker_step lib i s =
         s \<lparr> fetchTrace := fetchTrace s @ [task_u t],
             audit := (case fetched_links (audit s) t of None \<Rightarrow> audit s
                       | Some ls \<Rightarrow> processLinks lib (audit s) t ls),
             workers := (workers s)[i := \<lparr> pc = LoopHead, deferred = d \<rparr>] \<rparr>"
      using len Dequeued
      by (cases "workers s ! i")
         (auto simp add: startWorker_step_def fetched_links_def Let_def split: sum.splits)
    then show ?thesis using process len Dequeued by blast
  qed
qed

lemma run_Nil [simp]: "run lib s [] = s"
  by (simp add: run_def)

lemma run_Cons [simp]: "run lib s (ev # sched) = run lib (exec lib s ev) sched"
  by (simp add: run_def)

lemma run_append: "run lib s (xs @ ys) = run lib (run lib s xs) ys"
  by (simp add: run_def)

lemma run_snoc: "run lib s (sched @ [ev]) = exec lib (run lib s sched) ev"
  by (simp add: run_def)

lemma held_list_update:
  "i < length ws \<Longrightarrow>
   (\<Sum>w\<leftarrow>ws[i := w']. held_of (pc w)) + held_of (pc (ws ! i)) =
   (\<Sum>w\<leftarrow>ws. held_of (pc w)) + held_of (pc w')"
proof (induction ws arbitrary: i)
  case Nil
  then show ?case by simp
next
  case (Cons x xs)
  then show ?case by (cases i) (auto simp: ac_simps)
qed

lemma held_update_same:
  assumes "i < length (workers s)" "held_of (pc w') = held_of (pc (workers s ! i))"
  shows "held (s \<lparr> workers := (workers s)[i := w'] \<rparr>) = held s"
  using held_list_update[OF assms(1), of w'] assms(2) by (simp add: held_def)

lemma held_update_take:
  assumes "i < length (workers s)" "pc (workers s ! i) = LoopHead" "pc w' = Dequeued t"
  shows "held (s \<lparr> workers := (workers s)[i := w'] \<rparr>) = add_mset t (held s)"
  using held_list_update[OF assms(1), of w'] assms(2,3) by (simp add: held_def)

lemma held_update_done:
  assumes "i < length (workers s)" "pc (workers s ! i) = Dequeued t" "pc w' = LoopHead"
  shows "add_mset t (held (s \<lparr> workers := (workers s)[i := w'] \<rparr>)) = held s"
  using held_list_update[OF assms(1), of w'] assms(2,3) by (simp add: held_def)

lemma held_audit_upd [simp]: "held (s \<lparr> audit := a \<rparr>) = held s"
  "held (s \<lparr> fetchTrace := f \<rparr>) = held s" "held (s \<lparr> cancelled := c \<rparr>) = held s"
  by (simp_all add: held_def)

lemma all_returned_held: "all_returned s \<Longrightarrow> held s = {#}"
proof -
  have "list_all (\<lambda>w. pc w = Returned) ws \<Longrightarrow> (\<Sum>w\<leftarrow>ws. held_of (pc w)) = {#}" for ws
    by (induction ws) auto
  then show "all_returned s \<Longrightarrow> held s = {#}"
    by (simp add: all_returned_def held_def)
qed

lemma accounted_step: "accounted s \<subseteq># accounted (startWorker_step lib i s)"
proof (cases rule: startWorker_step_cases[of lib i s])
  case stutter
  then show ?thesis by simp
next
  case exit
  have "held (s \<lparr> workers := (workers s)[i := \<lparr> pc = Returned, deferred = [] \<rparr>] \<rparr>) = held s"
    using exit(1,2) by (intro held_update_same) auto
  then show ?thesis using exit(4) by (simp add: accounted_def)
next
  case (dequeue t q)
  have "held (s \<lparr> workers := (workers s)[i := (workers s ! i) \<lparr> pc := Dequeued t \<rparr>] \<rparr>) = add_mset t (held s)"
    using dequeue(1,2) by (intro held_update_take) auto
  then have "held (startWorker_step lib i s) = add_mset t (held s)"
    using dequeue(5) by (simp add: held_def)
  then show ?thesis using dequeue(4,5) by (simp add: accounted_def)
next
  case (process t d)
  have "add_mset t (held (s \<lparr> workers := (workers s)[i := \<lparr> pc = LoopHead, deferred = d \<rparr>] \<rparr>)) = held s"
    using process(1,2) by (intro held_update_done) auto
  then have h: "held s = add_mset t (held (startWorker_step lib i s))"
    using process(3) by (simp add: held_def)
  obtain new where new: "tasks (audit (startWorker_step lib i s)) = tasks (audit s) @ new"
    using process(3) processLinks_tasks[of lib "audit s" t]
    by (cases "fetched_links (audit s) t") auto
  have f: "fetchTrace (startWorker_step lib i s) = fetchTrace s @ [task_u t]"
    using process(3) by simp
  show ?thesis unfolding accounted_def new f h by simp
qed

lemma accounted_exec: "accounted s \<subseteq># accounted (exec lib s ev)"
  by (cases ev) (simp_all add: accounted_step, simp add: accounted_def)

lemma accounted_run: "accounted s \<subseteq># accounted (run lib s sched)"
proof (induction sched arbitrary: s)
  case Nil
  then show ?case by simp
next
  case (Cons ev sched)
  show ?case using subset_mset.order_trans[OF accounted_exec[of s lib ev] Cons.IH[of "exec lib s ev"]]
    by (simp del: exec.simps)
qed

section \<open>Invariants of the pool\<close>

lemma all_returned_update_not:
  assumes "i < length (workers s)" "pc w' \<noteq> Returned"
  shows "\<not> all_returned (s \<lparr> workers := (workers s)[i := w'] \<rparr>)"
  using assms by (auto simp add: all_returned_def list_all_length nth_list_update intro!: exI[of _ i])

lemma quiescent_step: "quiescent s \<Longrightarrow> quiescent (startWorker_step lib i s)"
proof (cases rule: startWorker_step_cases[of lib i s])
  case stutter
  assume "quiescent s" then show ?thesis using stutter by simp
next
  case exit
  then show ?thesis by (auto simp add: quiescent_def)
next
  case (dequeue t q)
  have "\<not> all_returned (s \<lparr> workers := (workers s)[i := (workers s ! i) \<lparr> pc := Dequeued t \<rparr>] \<rparr>)"
    using dequeue(1) by (intro all_returned_update_not) auto
  then show ?thesis using dequeue(5) by (simp add: quiescent_def all_returned_def)
next
  case (process t d)
  have "\<not> all_returned (s \<lparr> workers := (workers s)[i := \<lparr> pc = LoopHead, deferred = d \<rparr>] \<rparr>)"
    using process(1) by (intro all_returned_update_not) auto
  then show ?thesis using process(3) by (simp add: quiescent_def all_returned_def)
qed

lemma quiescent_exec: "quiescent s \<Longrightarrow> quiescent (exec lib s ev)"
  by (cases ev) (simp_all add: quiescent_step, simp add: quiescent_def)

lemma quiescent_run: "quiescent s \<Longrightarrow> quiescent (run lib s sched)"
  by (induction sched arbitrary: s) (simp_all add: quiescent_exec del: exec.simps)

lemma cancelled_step [simp]: "cancelled (startWorker_step lib i s) = cancelled s"
  by (cases rule: startWorker_step_cases[of lib i s]) simp_all

lemma cancelled_run: "Cancel \<notin> set sched \<Longrightarrow> cancelled (run lib s sched) = cancelled s"
proof (induction sched arbitrary: s)
  case Nil
  then show ?case by simp
next
  case (Cons ev sched)
  then show ?case by (cases ev) simp_all
qed

lemma length_workers_step [simp]: "length (workers (startWorker_step lib i s)) = length (workers s)"
  by (cases rule: startWorker_step_cases[of lib i s]) simp_all

lemma length_workers_run [simp]: "length (workers (run lib s sched)) = length (workers s)"
proof (induction sched arbitrary: s)
  case Nil
  then show ?case by simp
next
  case (Cons ev sched)
  then show ?case by (cases ev) simp_all
qed

lemma config_step [simp]: "config (audit (startWorker_step lib i s)) = config (audit s)"
proof (cases rule: startWorker_step_cases[of lib i s])
  case (process t d)
  then show ?thesis by (cases "fetched_links (audit s) t") simp_all
qed simp_all

lemma respectRobots_frame:
  "respectRobots lib s = (s1, r) \<Longrightarrow>
     config (audit s1) = config (audit s) \<and> tasks (audit s1) = tasks (audit s) \<and>
     workers s1 = workers s \<and> cancelled s1 = cancelled s \<and> startURL (audit s1) = startURL (audit s)
     \<and> siteGraph (audit s1) = siteGraph (audit s) \<and> fetcher (audit s1) = fetcher (audit s)
     \<and> extractor (audit s1) = extractor (audit s) \<and> schemes (audit s1) = schemes (audit s)"
  by (auto simp add: respectRobots_def Let_def split: sum.splits if_splits)

lemma fresh_simps [simp]:
  "audit (fresh a) = a" "workers (fresh a) = []" "fetchTrace (fresh a) = []"
  "cancelled (fresh a) = False"
  by (simp_all add: fresh_def)

lemma launch_ok:
  assumes "launch lib (fresh a) = (s, None)"
  shows "workers s = replicate (nat (MaxWorkers (config a))) \<lparr> pc = LoopHead, deferred = [] \<rparr>"
    and "tasks (audit s) = tasks a @ [\<lparr> task_u = startURL a, task_depth = 0 \<rparr>]"
    and "\<not> cancelled s" and "config (audit s) = config a"
proof -
  obtain s1 r where r: "(if RespectRobots (config a) then respectRobots lib (fresh a) else (fresh a, None)) = (s1, r)"
    by (cases "(if RespectRobots (config a) then respectRobots lib (fresh a) else (fresh a, None))") auto
  have fr: "config (audit s1) = config a \<and> tasks (audit s1) = tasks a \<and>
     workers s1 = [] \<and> \<not> cancelled s1 \<and> startURL (audit s1) = startURL a"
    using r respectRobots_frame[of lib "fresh a" s1 r]
    by (auto split: if_splits)
  have s: "r = None \<and> s = s1 \<lparr> audit := (audit s1) \<lparr> tasks := tasks (audit s1) @ [\<lparr> task_u = startURL (audit s1), task_depth = 0 \<rparr>],
                                visited := insert (url_String lib (startURL (audit s1))) (visited (audit s1)) \<rparr>,
                   workers := replicate (nat (MaxWorkers (config (audit s1))))
                                \<lparr> pc = LoopHead, deferred = [] \<rparr> \<rparr>"
    using assms r by (cases r) (auto simp add: launch_def Let_def)
  show "workers s = replicate (nat (MaxWorkers (config a))) \<lparr> pc = LoopHead, deferred = [] \<rparr>"
    and "tasks (audit s) = tasks a @ [\<lparr> task_u = startURL a, task_depth = 0 \<rparr>]"
    and "\<not> cancelled s" and "config (audit s) = config a"
    using s fr by auto
qed

lemma launch_quiescent:
  assumes "launch lib (fresh a) = (s, None)" "1 \<le> MaxWorkers (config a)"
  shows "quiescent s"
proof -
  have "nat (MaxWorkers (config a)) \<noteq> 0" using assms(2) by simp
  then obtain n where "nat (MaxWorkers (config a)) = Suc n" by (cases "nat (MaxWorkers (config a))") auto
  then show ?thesis using launch_ok(1)[OF assms(1)] by (simp add: quiescent_def all_returned_def)
qed

section \<open>Termination\<close>

lemma mset_less_replace:
  fixes I J K :: "nat multiset"
  assumes "J \<noteq> {#}" "\<forall>k\<in>#K. \<exists>j\<in>#J. k < j"
  shows "I + K < I + J"
  using assms by (simp add: less_multiset_def one_step_implies_multp)

lemma mset_map_update:
  assumes "i < length ws"
  obtains W0 where "image_mset f (mset ws) = add_mset (f (ws ! i)) W0"
    and "\<And>w'. image_mset f (mset (ws[i := w'])) = add_mset (f w') W0"
proof
  let ?W0 = "mset (map f ws) - {#f (ws ! i)#}"
  have "f (ws ! i) \<in># mset (map f ws)" using assms by auto
  then show "image_mset f (mset ws) = add_mset (f (ws ! i)) ?W0" by simp
  show "image_mset f (mset (ws[i := w'])) = add_mset (f w') ?W0" for w'
    using assms mset_update[of i "map f ws" "f w'"] by (simp add: map_update flip: mset_map)
qed

lemma hops_left_child:
  assumes "task_depth x = task_depth t + 1" "task_depth x < MaxDepth c"
  shows "3 * hops_left c x + 4 < 3 * hops_left c t + 3"
  using assms by (simp add: hops_left_def)

lemma weight_step:
  assumes "startWorker_step lib i s \<noteq> s"
  shows "crawl_weight (startWorker_step lib i s) < crawl_weight s"
proof (cases rule: startWorker_step_cases[of lib i s])
  case stutter
  then show ?thesis using assms by simp
next
  case exit
  let ?c = "config (audit s)"
  obtain W0 where W: "image_mset (\<lambda>w. pc_weight ?c (pc w)) (mset (workers s)) = add_mset 1 W0"
    "\<And>w'. image_mset (\<lambda>w. pc_weight ?c (pc w)) (mset ((workers s)[i := w'])) = add_mset (pc_weight ?c (pc w')) W0"
    using mset_map_update[OF exit(1), of "\<lambda>w. pc_weight ?c (pc w)"] exit(2) by auto
  let ?I = "mset (map (\<lambda>t. 3 * hops_left ?c t + 4) (tasks (audit s))) + W0 + (if cancelled s then {#} else {#0#})"
  have 1: "crawl_weight s = ?I + {#1#}"
    by (simp add: crawl_weight_def W(1))
  have 2: "crawl_weight (startWorker_step lib i s) = ?I + {#0#}"
    by (simp add: crawl_weight_def exit(4) W(2))
  show ?thesis unfolding 1 2 by (rule mset_less_replace) auto
next
  case (dequeue t q)
  let ?c = "config (audit s)"
  obtain W0 where W: "image_mset (\<lambda>w. pc_weight ?c (pc w)) (mset (workers s)) = add_mset 1 W0"
    "\<And>w'. image_mset (\<lambda>w. pc_weight ?c (pc w)) (mset ((workers s)[i := w'])) = add_mset (pc_weight ?c (pc w')) W0"
    using mset_map_update[OF dequeue(1), of "\<lambda>w. pc_weight ?c (pc w)"] dequeue(2) by auto
  let ?I = "mset (map (\<lambda>t. 3 * hops_left ?c t + 4) q) + W0 + (if cancelled s then {#} else {#0#})"
  have 1: "crawl_weight s = ?I + {#3 * hops_left ?c t + 4, 1#}"
    by (simp add: crawl_weight_def W(1) dequeue(4))
  have 2: "crawl_weight (startWorker_step lib i s) = ?I + {#3 * hops_left ?c t + 3#}"
    by (simp add: crawl_weight_def dequeue(5) W(2))
  show ?thesis unfolding 1 2 by (rule mset_less_replace) auto
next
  case (process t d)
  let ?c = "config (audit s)"
  let ?s' = "startWorker_step lib i s"
  obtain W0 where W: "image_mset (\<lambda>w. pc_weight ?c (pc w)) (mset (workers s)) = add_mset (3 * hops_left ?c t + 3) W0"
    "\<And>w'. image_mset (\<lambda>w. pc_weight ?c (pc w)) (mset ((workers s)[i := w'])) = add_mset (pc_weight ?c (pc w')) W0"
    using mset_map_update[OF process(1), of "\<lambda>w. pc_weight ?c (pc w)"] process(2) by auto
  obtain new where new: "tasks (audit ?s') = tasks (audit s) @ new"
    "\<forall>x\<in>set new. task_depth x = task_depth t + 1 \<and> task_depth x < MaxDepth ?c"
    using process(3) processLinks_tasks[of lib "audit s" t]
    by (cases "fetched_links (audit s) t") auto
  have ws: "workers ?s' = (workers s)[i := \<lparr> pc = LoopHead, deferred = d \<rparr>]"
    and c: "cancelled ?s' = cancelled s"
    using process(3) by simp_all
  let ?I = "mset (map (\<lambda>t. 3 * hops_left ?c t + 4) (tasks (audit s))) + W0 + (if cancelled s then {#} else {#0#})"
  have 1: "crawl_weight s = ?I + {#3 * hops_left ?c t + 3#}"
    by (simp add: crawl_weight_def W(1))
  have 2: "crawl_weight ?s' = ?I + (add_mset 1 (mset (map (\<lambda>t. 3 * hops_left ?c t + 4) new)))"
    unfolding crawl_weight_def config_step new(1) ws c by (simp add: W(2))
  show ?thesis unfolding 1 2
  proof (rule mset_less_replace)
    show "{#3 * hops_left ?c t + 3#} \<noteq> {#}" by simp
    show "\<forall>k\<in>#add_mset 1 (mset (map (\<lambda>t. 3 * hops_left ?c t + 4) new)). \<exists>j\<in>#{#3 * hops_left ?c t + 3#}. k < j"
      using new(2) hops_left_child[of _ t ?c] by auto
  qed
qed

lemma weight_exec:
  assumes "exec lib s ev \<noteq> s"
  shows "crawl_weight (exec lib s ev) < crawl_weight s"
proof (cases ev)
  case (Run i)
  then show ?thesis using assms weight_step[of lib i s] by simp
next
  case Cancel
  then have nc: "\<not> cancelled s" using assms by (cases "cancelled s") auto
  let ?I = "mset (map (\<lambda>t. 3 * hops_left (config (audit s)) t + 4) (tasks (audit s))) +
     mset (map (\<lambda>w. pc_weight (config (audit s)) (pc w)) (workers s))"
  have 1: "crawl_weight s = ?I + {#0#}" using nc by (simp add: crawl_weight_def)
  have 2: "crawl_weight (exec lib s ev) = ?I + {#}" using Cancel by (simp add: crawl_weight_def)
  show ?thesis unfolding 1 2 by (rule mset_less_replace) auto
qed

lemma wfp_effective: "wfp (\<lambda>s' s. effective lib s s')"
proof (rule wfp_if_convertible_to_wfp[where f = crawl_weight and S = "(<)"])
  show "wfp ((<) :: nat multiset \<Rightarrow> nat multiset \<Rightarrow> bool)"
    by (rule wfp_less_multiset) simp
  show "effective lib y x \<Longrightarrow> crawl_weight x < crawl_weight y" for x y :: "'a crawl"
    using weight_exec[of lib y] by (auto simp add: effective_def)
qed

lemma step_progress:
  assumes "i < length (workers s)" "pc (workers s ! i) \<noteq> Returned"
  shows "pc (workers (startWorker_step lib i s) ! i) \<noteq> pc (workers s ! i)"
  using assms
  by (cases "pc (workers s ! i)")
     (auto simp add: startWorker_step_def Let_def split: list.splits sum.splits)

lemma terminates: "\<exists>sched. Cancel \<notin> set sched \<and> all_returned (run lib s sched)"
proof (induction s rule: wfp_induct_rule[OF wfp_effective[of lib]])
  case (1 s)
  show ?case
  proof (cases "all_returned s")
    case True
    then show ?thesis by (intro exI[of _ "[]"]) simp
  next
    case False
    then obtain i where i: "i < length (workers s)" "pc (workers s ! i) \<noteq> Returned"
      by (auto simp add: all_returned_def list_all_length)
    let ?s' = "startWorker_step lib i s"
    have "?s' \<noteq> s" using step_progress[OF i, of lib] by auto
    moreover have "?s' = exec lib s (Run i)" by simp
    ultimately have "effective lib s ?s'" unfolding effective_def by blast
    then obtain sched where "Cancel \<notin> set sched" "all_returned (run lib ?s' sched)"
      using 1 by blast
    then show ?thesis by (intro exI[of _ "Run i # sched"]) simp
  qed
qed

section \<open>The crawl of the chain\<close>

lemma held_member:
  assumes "i < length (workers s)" "pc (workers s ! i) = Dequeued t"
  shows "t \<in># held s"
proof -
  have "i < length ws \<Longrightarrow> pc (ws ! i) = Dequeued t \<Longrightarrow> t \<in># (\<Sum>w\<leftarrow>ws. held_of (pc w))" for ws
  proof (induction ws arbitrary: i)
    case Nil
    then show ?case by simp
  next
    case (Cons x xs)
    then show ?case by (cases i) auto
  qed
  then show ?thesis using assms by (simp add: held_def)
qed

lemma step_abstract:
  fixes lib :: "'r lib" and s :: "'r crawl" and i :: nat
  defines "s' \<equiv> startWorker_step lib i s"
  obtains (same) "audit s' = audit s" "held s' = held s" "fetchTrace s' = fetchTrace s"
  | (dequeue) t q where "tasks (audit s) = t # q" "audit s' = (audit s) \<lparr> tasks := q \<rparr>"
      "held s' = add_mset t (held s)" "fetchTrace s' = fetchTrace s"
  | (process) t where "held s = add_mset t (held s')"
      "fetchTrace s' = fetchTrace s @ [task_u t]"
      "audit s' = (case fetched_links (audit s) t of None \<Rightarrow> audit s
                   | Some ls \<Rightarrow> processLinks lib (audit s) t ls)"
proof (cases rule: startWorker_step_cases[of lib i s])
  case stutter
  then show ?thesis using same by (simp add: s'_def)
next
  case exit
  have "held (s \<lparr> workers := (workers s)[i := \<lparr> pc = Returned, deferred = [] \<rparr>] \<rparr>) = held s"
    using exit(1,2) by (intro held_update_same) auto
  then show ?thesis using same exit(4) by (simp add: s'_def)
next
  case (dequeue t q)
  have "held (s \<lparr> workers := (workers s)[i := (workers s ! i) \<lparr> pc := Dequeued t \<rparr>] \<rparr>) = add_mset t (held s)"
    using dequeue(1,2) by (intro held_update_take) auto
  then have "held s' = add_mset t (held s)"
    using dequeue(5) by (simp add: held_def s'_def)
  then show ?thesis using that(2)[of t q] dequeue(4,5) by (simp add: s'_def)
next
  case (process t d)
  have "add_mset t (held (s \<lparr> workers := (workers s)[i := \<lparr> pc = LoopHead, deferred = d \<rparr>] \<rparr>)) = held s"
    using process(1,2) by (intro held_update_done) auto
  then have h: "held s = add_mset t (held s')"
    using process(3) by (simp add: held_def s'_def)
  show ?thesis using that(3)[of t] h process(3) by (simp add: s'_def)
qed

lemma chain_links:
  "fetched_links chain_audit seed_task = Some [''/page-a'']"
  "fetched_links chain_audit page_a_task = Some [''/page-b'']"
  by code_simp+

lemma fetched_links_cong:
  "fetcher a = fetcher b \<Longrightarrow> extractor a = extractor b \<Longrightarrow> fetched_links a t = fetched_links b t"
  by (auto simp add: fetched_links_def split: sum.splits)

lemma chain_process_seed:
  assumes "chain_site a" "visited a = {''https://example.com''}"
  shows "processLinks test_lib a seed_task [''/page-a''] =
     a \<lparr> visited := {''https://example.com'', ''https://example.com/page-a''},
         siteGraph := siteGraph a @ [(''https://example.com/'', ''https://example.com/page-a'', 1)],
         tasks := tasks a @ [page_a_task] \<rparr>"
  using assms
  by (simp add: processLink_eq chain_site_def test_lib_def test_Parse_def test_Resolve_def reference_def
      seed_task_def page_a_task_def page_a_def seed_url_def accepted_def normaliseHost_def TrimPrefix_def HasPrefix_def
      normaliseURL_def HasSuffix_def test_config_def insert_commute)

lemma chain_process_a:
  assumes "chain_site a" "visited a = {''https://example.com'', ''https://example.com/page-a''}"
  shows "processLinks test_lib a page_a_task [''/page-b''] =
     a \<lparr> visited := {''https://example.com'', ''https://example.com/page-a'', ''https://example.com/page-b''},
         siteGraph := siteGraph a @ [(''https://example.com/page-a'', ''https://example.com/page-b'', 1)] \<rparr>"
  using assms
  by (simp add: processLink_eq chain_site_def test_lib_def test_Parse_def test_Resolve_def reference_def
      seed_task_def page_a_task_def page_a_def seed_url_def accepted_def normaliseHost_def TrimPrefix_def HasPrefix_def
      normaliseURL_def HasSuffix_def test_config_def insert_commute)

lemma audit_frame_step [simp]:
  "fetcher (audit (startWorker_step lib i s)) = fetcher (audit s)"
  "extractor (audit (startWorker_step lib i s)) = extractor (audit s)"
  "startURL (audit (startWorker_step lib i s)) = startURL (audit s)"
  "schemes (audit (startWorker_step lib i s)) = schemes (audit s)"
  "robotsData (audit (startWorker_step lib i s)) = robotsData (audit s)"
  by (cases rule: startWorker_step_cases[of lib i s]; simp split: option.splits)+

lemma audit_frame_exec [simp]:
  "config (audit (exec lib s ev)) = config (audit s)"
  "fetcher (audit (exec lib s ev)) = fetcher (audit s)"
  "extractor (audit (exec lib s ev)) = extractor (audit s)"
  "startURL (audit (exec lib s ev)) = startURL (audit s)"
  "schemes (audit (exec lib s ev)) = schemes (audit s)"
  "robotsData (audit (exec lib s ev)) = robotsData (audit s)"
  by (cases ev; simp)+

lemma audit_frame_run [simp]:
  "config (audit (run lib s sched)) = config (audit s)"
  "fetcher (audit (run lib s sched)) = fetcher (audit s)"
  "extractor (audit (run lib s sched)) = extractor (audit s)"
  "startURL (audit (run lib s sched)) = startURL (audit s)"
  "schemes (audit (run lib s sched)) = schemes (audit s)"
  "robotsData (audit (run lib s sched)) = robotsData (audit s)"
  by (induction sched arbitrary: s; simp del: exec.simps)+

lemma chain_site_step: "chain_site (audit s) \<Longrightarrow> chain_site (audit (exec test_lib s ev))"
  using fetched_links_cong[of "audit (exec test_lib s ev)" "audit s"]
  by (simp add: chain_site_def del: exec.simps)

lemma length_chain_stages [simp]: "length chain_stages = 5"
  by (simp add: chain_stages_def)

lemma stageI: "progress s = chain_stages ! k \<Longrightarrow> k < 5 \<Longrightarrow> progress s \<in> set chain_stages"
  by (metis length_chain_stages nth_mem)

lemma stage_cases:
  assumes "progress s \<in> set chain_stages"
  obtains "progress s = chain_stages ! 0" | "progress s = chain_stages ! 1"
    | "progress s = chain_stages ! 2" | "progress s = chain_stages ! 3"
    | "progress s = chain_stages ! 4"
proof -
  obtain k where k: "k < 5" "progress s = chain_stages ! k"
    using assms by (metis in_set_conv_nth length_chain_stages)
  then consider "k = 0" | "k = 1" | "k = 2" | "k = 3" | "k = 4" by linarith
  then show ?thesis using k(2) that by cases auto
qed

lemma stage_simps:
  "chain_stages ! 0 = ([seed_task], {#}, [], [], {''https://example.com''})"
  "chain_stages ! 1 = ([], {#seed_task#}, [], [], {''https://example.com''})"
  "chain_stages ! 2 = ([page_a_task], {#}, [seed_url],
         [(''https://example.com/'', ''https://example.com/page-a'', 1)],
         {''https://example.com'', ''https://example.com/page-a''})"
  "chain_stages ! 3 = ([], {#page_a_task#}, [seed_url],
         [(''https://example.com/'', ''https://example.com/page-a'', 1)],
         {''https://example.com'', ''https://example.com/page-a''})"
  "chain_stages ! 4 = ([], {#}, [seed_url, page_a],
         [(''https://example.com/'', ''https://example.com/page-a'', 1),
          (''https://example.com/page-a'', ''https://example.com/page-b'', 1)],
         {''https://example.com'', ''https://example.com/page-a'', ''https://example.com/page-b''})"
  by (simp_all add: chain_stages_def)

lemma chain_step:
  assumes site: "chain_site (audit s)" and st: "progress s \<in> set chain_stages"
  shows "progress (startWorker_step test_lib i s) \<in> set chain_stages"
proof (cases rule: step_abstract[of test_lib i s])
  case same
  then show ?thesis using st by (simp add: progress_def)
next
  case (dequeue t q)
  from st show ?thesis
  proof (cases rule: stage_cases)
    case 1
    then have "progress (startWorker_step test_lib i s) = chain_stages ! 1"
      using dequeue unfolding stage_simps progress_def by simp
    then show ?thesis by (rule stageI) simp
  next
    case 2
    then show ?thesis using dequeue(1) unfolding stage_simps progress_def by simp
  next
    case 3
    then have "progress (startWorker_step test_lib i s) = chain_stages ! 3"
      using dequeue unfolding stage_simps progress_def by simp
    then show ?thesis by (rule stageI) simp
  next
    case 4
    then show ?thesis using dequeue(1) unfolding stage_simps progress_def by simp
  next
    case 5
    then show ?thesis using dequeue(1) unfolding stage_simps progress_def by simp
  qed
next
  case (process t)
  have l: "fetched_links (audit s) seed_task = Some [''/page-a'']"
    "fetched_links (audit s) page_a_task = Some [''/page-b'']"
    using site by (simp_all add: chain_site_def)
  from st show ?thesis
  proof (cases rule: stage_cases)
    case 1
    then show ?thesis using process(1) unfolding stage_simps progress_def by simp
  next
    case 2
    then have t: "t = seed_task" and h: "held (startWorker_step test_lib i s) = {#}"
      and v: "visited (audit s) = {''https://example.com''}"
      and r: "tasks (audit s) = []" "fetchTrace s = []" "siteGraph (audit s) = []"
      using process(1) unfolding stage_simps progress_def by auto
    have a: "audit (startWorker_step test_lib i s) = processLinks test_lib (audit s) seed_task [''/page-a'']"
      using process(3) t l by simp
    have "progress (startWorker_step test_lib i s) = chain_stages ! 2"
      unfolding stage_simps progress_def a chain_process_seed[OF site v] h process(2) t r
      by (simp add: seed_task_def r)
    then show ?thesis by (rule stageI) simp
  next
    case 3
    then show ?thesis using process(1) unfolding stage_simps progress_def by simp
  next
    case 4
    then have t: "t = page_a_task" and h: "held (startWorker_step test_lib i s) = {#}"
      and v: "visited (audit s) = {''https://example.com'', ''https://example.com/page-a''}"
      and r: "tasks (audit s) = []" "fetchTrace s = [seed_url]"
        "siteGraph (audit s) = [(''https://example.com/'', ''https://example.com/page-a'', 1)]"
      using process(1) unfolding stage_simps progress_def by auto
    have a: "audit (startWorker_step test_lib i s) = processLinks test_lib (audit s) page_a_task [''/page-b'']"
      using process(3) t l by simp
    have "progress (startWorker_step test_lib i s) = chain_stages ! 4"
      unfolding stage_simps progress_def a chain_process_a[OF site v] h process(2) t r
      by (simp add: page_a_task_def r)
    then show ?thesis by (rule stageI) simp
  next
    case 5
    then show ?thesis using process(1) unfolding stage_simps progress_def by simp
  qed
qed

lemma chain_exec:
  assumes "chain_site (audit s)" "progress s \<in> set chain_stages"
  shows "progress (exec test_lib s ev) \<in> set chain_stages"
proof (cases ev)
  case (Run i)
  then show ?thesis using chain_step[OF assms] by simp
next
  case Cancel
  then show ?thesis using assms(2) by (simp add: progress_def)
qed

lemma chain_run:
  assumes "chain_site (audit s)" "progress s \<in> set chain_stages"
  shows "progress (run test_lib s sched) \<in> set chain_stages"
  using assms
proof (induction sched arbitrary: s)
  case Nil
  then show ?case by simp
next
  case (Cons ev sched)
  show ?case using Cons.IH[OF chain_site_step[OF Cons.prems(1)] chain_exec[OF Cons.prems]]
    by simp
qed

lemma held_replicate:
  assumes "workers s = replicate n \<lparr> pc = LoopHead, deferred = [] \<rparr>"
  shows "held s = {#}"
proof -
  have "(\<Sum>w\<leftarrow>replicate n \<lparr> pc = LoopHead, deferred = [] \<rparr>. held_of (pc w)) = {#}"
    by (induction n) simp_all
  then show ?thesis using assms by (simp add: held_def)
qed

lemma Start_cases:
  assumes "Start lib sched a = Some (s, err)"
  obtains (failed) e where "launch lib (fresh a) = (s, Some e)" "err = Some e"
  | (ran) s0 where "launch lib (fresh a) = (s0, None)" "s = run lib s0 sched" "all_returned s"
      "err = None"
  using assms
  by (auto simp add: Start_def Let_def split: prod.splits option.splits if_splits)

lemma launch_no_robots:
  assumes "\<not> RespectRobots (config a)"
  shows "launch lib (fresh a) =
    (\<lparr> audit = a \<lparr> tasks := tasks a @ [\<lparr> task_u = startURL a, task_depth = 0 \<rparr>],
                   visited := insert (url_String lib (startURL a)) (visited a) \<rparr>,
        workers = replicate (nat (MaxWorkers (config a))) \<lparr> pc = LoopHead, deferred = [] \<rparr>,
        fetchTrace = [], cancelled = False \<rparr>, None)"
  using assms by (simp add: launch_def fresh_def)

lemma chain_pool_launch:
  "\<exists>s0. launch test_lib (fresh (chain_pool n)) = (s0, None) \<and> chain_site (audit s0) \<and>
     progress s0 = chain_stages ! 0"
proof -
  have nr: "\<not> RespectRobots (config (chain_pool n))"
    by (simp add: chain_pool_def test_config_def)
  let ?a = "(chain_pool n) \<lparr> tasks := tasks (chain_pool n) @ [\<lparr> task_u = startURL (chain_pool n), task_depth = 0 \<rparr>],
                   visited := insert (url_String test_lib (startURL (chain_pool n))) (visited (chain_pool n)) \<rparr>"
  have l: "fetched_links ?a seed_task = Some [''/page-a'']"
    "fetched_links ?a page_a_task = Some [''/page-b'']"
    using chain_links fetched_links_cong[of ?a chain_audit]
    by (simp_all add: chain_pool_def)
  have site: "chain_site ?a"
    unfolding chain_site_def using l
    by (simp add: chain_pool_def chain_audit_def audit_of_def test_config_def)
  have f: "tasks ?a = [seed_task]" "visited ?a = {''https://example.com''}" "siteGraph ?a = []"
    by (simp_all add: chain_pool_def chain_audit_def audit_of_def seed_task_def
        test_lib_def test_String_def seed_url_def)
  show ?thesis
    unfolding launch_no_robots[OF nr]
    using site f by (simp add: progress_def stage_simps held_replicate)
qed

lemma chain_final:
  assumes "1 \<le> n" "Cancel \<notin> set sched" "Start test_lib sched (chain_pool n) = Some (s, err)"
  shows "err = None \<and> progress s = chain_stages ! 4"
proof -
  obtain s0 where s0: "launch test_lib (fresh (chain_pool n)) = (s0, None)" "chain_site (audit s0)"
     "progress s0 = chain_stages ! 0"
    using chain_pool_launch by blast
  from assms(3) have s: "s = run test_lib s0 sched" "all_returned s" "err = None"
    using s0(1) by (cases rule: Start_cases; simp)+
  have c: "config (chain_pool n) = test_config \<lparr> MaxWorkers := n \<rparr>"
    by (simp add: chain_pool_def)
  have "quiescent s0" using launch_quiescent[OF s0(1)] assms(1) c by simp
  then have q: "quiescent s" unfolding s(1) by (rule quiescent_run)
  have nc: "\<not> cancelled s" unfolding s(1) using launch_ok(3)[OF s0(1)] by (simp add: cancelled_run[OF assms(2)])
  have "length (workers s) = nat n" unfolding s(1) using launch_ok(1)[OF s0(1)] c by simp
  then have "workers s \<noteq> []" using assms(1) by auto
  then have t: "tasks (audit s) = []" using q nc s(2) by (simp add: quiescent_def)
  have h: "held s = {#}" using s(2) by (rule all_returned_held)
  have "progress s \<in> set chain_stages"
    unfolding s(1) using s0(2) stageI[OF s0(3)] by (intro chain_run) simp_all
  then have "progress s = chain_stages ! 4"
  proof (cases rule: stage_cases)
    case 1
    then show ?thesis using t unfolding stage_simps progress_def by simp
  next
    case 2
    then show ?thesis using h unfolding stage_simps progress_def by simp
  next
    case 3
    then show ?thesis using t unfolding stage_simps progress_def by simp
  next
    case 4
    then show ?thesis using h unfolding stage_simps progress_def by simp
  next
    case 5
    then show ?thesis .
  qed
  then show ?thesis using s(3) by simp
qed

section \<open>What a pass over the links of a page adds\<close>

lemma accepted_cong:
  "schemes a' = schemes a \<Longrightarrow> robotsData a' = robotsData a \<Longrightarrow> config a' = config a \<Longrightarrow>
   accepted lib a' t = accepted lib a t"
  by (rule ext) (simp add: accepted_def split: option.splits)

lemma passing_processLink [simp]:
  "passing lib (processLink lib t' a l) t ls = passing lib a t ls"
  using accepted_cong[of "processLink lib t' a l" a lib t] by (simp add: passing_def)

lemma passing_Nil [simp]: "passing lib a t [] = []"
  by (simp add: passing_def)

lemma passing_Cons:
  "passing lib a t (l # ls) =
     (case url_Parse lib l of Inl err \<Rightarrow> []
      | Inr p \<Rightarrow> if accepted lib a t (ResolveReference lib (task_u t) p)
                 then [ResolveReference lib (task_u t) p] else []) @ passing lib a t ls"
  by (simp add: passing_def split: sum.splits)

lemma processLink_cases:
  obtains (skip) "processLink lib t a l = a"
  | (add) p where "url_Parse lib l = Inr p"
      "accepted lib a t (ResolveReference lib (task_u t) p)"
      "normaliseURL (ResolveReference lib (task_u t) p) \<notin> visited a"
      "processLink lib t a l =
         a \<lparr> visited := insert (normaliseURL (ResolveReference lib (task_u t) p)) (visited a),
             siteGraph := siteGraph a @
               [(normaliseURL (task_u t), normaliseURL (ResolveReference lib (task_u t) p), 1)],
             tasks := tasks a @
               (if task_depth t + 1 < MaxDepth (config a)
                then [\<lparr> task_u = ResolveReference lib (task_u t) p,
                        task_depth = task_depth t + 1 \<rparr>] else []) \<rparr>"
proof (cases "url_Parse lib l")
  case (Inl err)
  then have "processLink lib t a l = a" by (simp add: processLink_eq)
  then show ?thesis by (rule skip)
next
  case (Inr p)
  show ?thesis
  proof (cases "accepted lib a t (ResolveReference lib (task_u t) p) \<and>
        normaliseURL (ResolveReference lib (task_u t) p) \<notin> visited a")
    case True
    then show ?thesis using add[of p] Inr by (simp add: processLink_eq Let_def)
  next
    case False
    then have "processLink lib t a l = a" using Inr by (auto simp add: processLink_eq Let_def)
    then show ?thesis by (rule skip)
  qed
qed

lemma passing_mono: "set (passing lib a t ls) \<subseteq> set (passing lib a t (l # ls))"
  by (simp add: passing_Cons)

lemma passing_head:
  "url_Parse lib l = Inr p \<Longrightarrow> accepted lib a t (ResolveReference lib (task_u t) p) \<Longrightarrow>
   ResolveReference lib (task_u t) p \<in> set (passing lib a t (l # ls))"
  by (simp add: passing_Cons)

lemma passing_head_visited:
  "visited (processLink lib t a l) \<union> normaliseURL ` set (passing lib a t ls) =
   visited a \<union> normaliseURL ` set (passing lib a t (l # ls))"
proof (cases "url_Parse lib l")
  case (Inl err)
  then show ?thesis by (simp add: processLink_eq passing_Cons)
next
  case (Inr p)
  then show ?thesis by (auto simp add: processLink_eq passing_Cons Let_def)
qed

lemma processLinks_visited:
  "visited (processLinks lib a t ls) = visited a \<union> normaliseURL ` set (passing lib a t ls)"
proof (induction ls arbitrary: a)
  case Nil
  then show ?case by simp
next
  case (Cons l ls)
  show ?case using Cons.IH[of "processLink lib t a l"] passing_head_visited[of lib t a l ls]
    by simp
qed

lemma processLinks_siteGraph:
  "set (siteGraph (processLinks lib a t ls)) \<subseteq>
     set (siteGraph a) \<union>
     (\<lambda>r. (normaliseURL (task_u t), normaliseURL r, 1)) ` set (passing lib a t ls)"
proof (induction ls arbitrary: a)
  case Nil
  then show ?case by simp
next
  case (Cons l ls)
  let ?F = "\<lambda>r. (normaliseURL (task_u t), normaliseURL r, 1::int)"
  have step: "set (siteGraph (processLink lib t a l)) \<subseteq> set (siteGraph a) \<union>
     ?F ` set (passing lib a t (l # ls))"
  proof (cases rule: processLink_cases[of lib t a l])
    case skip
    then show ?thesis by auto
  next
    case (add p)
    then show ?thesis using passing_head[OF add(1,2), of ls] by auto
  qed
  have m: "?F ` set (passing lib a t ls) \<subseteq> ?F ` set (passing lib a t (l # ls))"
    by (rule image_mono) (rule passing_mono)
  have "set (siteGraph (processLinks lib a t (l # ls))) \<subseteq>
      set (siteGraph (processLink lib t a l)) \<union> ?F ` set (passing lib a t ls)"
    using Cons.IH[of "processLink lib t a l"] by simp
  then show ?case using step m by blast
qed

lemma processLinks_new_tasks:
  "set (tasks (processLinks lib a t ls)) \<subseteq>
     set (tasks a) \<union>
     (\<lambda>r. \<lparr> task_u = r, task_depth = task_depth t + 1 \<rparr>) ` set (passing lib a t ls)"
proof (induction ls arbitrary: a)
  case Nil
  then show ?case by simp
next
  case (Cons l ls)
  let ?F = "\<lambda>r. \<lparr> task_u = r, task_depth = task_depth t + 1 \<rparr>"
  have step: "set (tasks (processLink lib t a l)) \<subseteq> set (tasks a) \<union>
     ?F ` set (passing lib a t (l # ls))"
  proof (cases rule: processLink_cases[of lib t a l])
    case skip
    then show ?thesis by auto
  next
    case (add p)
    then show ?thesis using passing_head[OF add(1,2), of ls] by auto
  qed
  have m: "?F ` set (passing lib a t ls) \<subseteq> ?F ` set (passing lib a t (l # ls))"
    by (rule image_mono) (rule passing_mono)
  have "set (tasks (processLinks lib a t (l # ls))) \<subseteq>
      set (tasks (processLink lib t a l)) \<union> ?F ` set (passing lib a t ls)"
    using Cons.IH[of "processLink lib t a l"] by simp
  then show ?case using step m by blast
qed


section \<open>Further facts about runs\<close>

lemma New_chain: "New test_lib test_config (Some chain_fetch) (Some chain_extract) = Inr chain_audit"
  by (simp add: New_def test_lib_def test_config_def chain_audit_def audit_of_def test_Parse_def seed_url_def insert_commute)

lemma run_no_workers:
  assumes "workers s = []"
  shows "audit (run lib s sched) = audit s \<and> workers (run lib s sched) = [] \<and>
     fetchTrace (run lib s sched) = fetchTrace s"
  using assms
proof (induction sched arbitrary: s)
  case Nil
  then show ?case by simp
next
  case (Cons ev sched)
  have "audit (exec lib s ev) = audit s \<and> workers (exec lib s ev) = [] \<and>
     fetchTrace (exec lib s ev) = fetchTrace s"
    using Cons.prems by (cases ev) (simp_all add: startWorker_step_def)
  then show ?case using Cons.IH[of "exec lib s ev"] by simp
qed

lemma chain_never_page_b:
  "\<forall>x\<in>set (tasks (audit (run test_lib (fst (launch test_lib (fresh (chain_pool n)))) sched))).
     task_u x \<noteq> page_b"
proof -
  obtain s0 where s0: "launch test_lib (fresh (chain_pool n)) = (s0, None)" "chain_site (audit s0)"
     "progress s0 = chain_stages ! 0"
    using chain_pool_launch by blast
  have ne: "task_u seed_task \<noteq> page_b" "task_u page_a_task \<noteq> page_b"
    by (simp_all add: seed_task_def page_a_task_def page_a_def page_b_def seed_url_def)
  have "progress (run test_lib s0 sched) \<in> set chain_stages"
    using s0(2) stageI[OF s0(3)] by (intro chain_run) simp_all
  then have "\<forall>x\<in>set (tasks (audit (run test_lib s0 sched))). task_u x \<noteq> page_b"
  proof (cases rule: stage_cases)
    case 1
    then show ?thesis using ne unfolding stage_simps progress_def by simp
  next
    case 2
    then show ?thesis unfolding stage_simps progress_def by simp
  next
    case 3
    then show ?thesis using ne unfolding stage_simps progress_def by simp
  next
    case 4
    then show ?thesis unfolding stage_simps progress_def by simp
  next
    case 5
    then show ?thesis unfolding stage_simps progress_def by simp
  qed
  then show ?thesis by (simp add: s0(1))
qed

lemma visited_step: "visited (audit s) \<subseteq> visited (audit (startWorker_step lib i s))"
proof (cases rule: step_abstract[of lib i s])
  case same
  then show ?thesis by simp
next
  case (dequeue t q)
  then show ?thesis by simp
next
  case (process t)
  then show ?thesis
    using processLinks_visited_mono[of "audit s" lib t]
    by (cases "fetched_links (audit s) t") simp_all
qed

lemma visited_run: "visited (audit s) \<subseteq> visited (audit (run lib s sched))"
proof (induction sched arbitrary: s)
  case Nil
  then show ?case by simp
next
  case (Cons ev sched)
  have "visited (audit s) \<subseteq> visited (audit (exec lib s ev))"
    by (cases ev) (simp_all add: visited_step)
  then show ?case using Cons.IH[of "exec lib s ev"] by auto
qed

lemma fetchTrace_step: "\<exists>more. fetchTrace (startWorker_step lib i s) = fetchTrace s @ more"
  by (cases rule: step_abstract[of lib i s]) simp_all

lemma fetchTrace_run: "\<exists>more. fetchTrace (run lib s sched) = fetchTrace s @ more"
proof (induction sched arbitrary: s)
  case Nil
  then show ?case by simp
next
  case (Cons ev sched)
  obtain m1 where m1: "fetchTrace (exec lib s ev) = fetchTrace s @ m1"
    using fetchTrace_step[of lib _ s] by (cases ev) auto
  obtain m2 where "fetchTrace (run lib (exec lib s ev) sched) = fetchTrace (exec lib s ev) @ m2"
    using Cons.IH by blast
  then show ?case using m1 by simp
qed

lemma Start_returns: "\<exists>sched. Cancel \<notin> set sched \<and> Start lib sched a \<noteq> None"
proof (cases "launch lib (fresh a)")
  case (Pair s0 r)
  show ?thesis
  proof (cases r)
    case None
    obtain sched where "Cancel \<notin> set sched" "all_returned (run lib s0 sched)"
      using terminates by blast
    then show ?thesis using Pair None by (intro exI[of _ sched]) (simp add: Start_def)
  next
    case (Some e)
    then show ?thesis using Pair by (intro exI[of _ "[]"]) (simp add: Start_def)
  qed
qed

lemma Start_error:
  assumes "Start lib sched a = Some (s, Some e)"
  shows "launch lib (fresh a) = (s, Some e)"
  using assms by (cases rule: Start_cases) simp_all

lemma launch_error:
  assumes "launch lib (fresh a) = (s, Some e)"
  shows "RespectRobots (config a) \<and>
    (\<exists>e'. respectRobots lib (fresh a) = (s, Some e') \<and> e = WrapMsg ''failed to respect robots'' e')"
  using assms
  by (auto simp add: launch_def Let_def split: if_splits prod.splits option.splits)

lemma respectRobots_404:
  assumes "url_Parse lib (Scheme (startURL a) @ ''://'' @ Host (startURL a) @ ''/robots.txt'') = Inr robots"
    and "fetcher a robots = Inr resp" "StatusCode resp = 404"
  shows "respectRobots lib (fresh a) =
    ((fresh a) \<lparr> fetchTrace := [robots],
        audit := a \<lparr> visited := insert (Scheme (startURL a) @ ''://'' @ Host (startURL a) @ ''/robots.txt'')
                         (visited a) \<rparr> \<rparr>, None)"
  using assms by (simp add: respectRobots_def Let_def fresh_def)

lemma respectRobots_fails:
  assumes "url_Parse lib (Scheme (startURL a) @ ''://'' @ Host (startURL a) @ ''/robots.txt'') = Inr robots"
    and "fetcher a robots = Inl e \<or>
      (fetcher a robots = Inr resp \<and> StatusCode resp \<noteq> 404 \<and>
        (StatusCode resp \<noteq> 200 \<or> (\<exists>b. Body resp = Inr b \<and> FromBytes lib b = Inl e)))"
  shows "\<exists>err. respectRobots lib (fresh a) = ((fresh a) \<lparr> fetchTrace := [robots] \<rparr>, Some err)"
  using assms by (auto simp add: respectRobots_def Let_def fresh_def)




lemma processLink_enqueues_unvisited:
  "set (tasks (processLink lib t a l)) - set (tasks a) \<subseteq>
     {x. normaliseURL (task_u x) \<notin> visited a \<and>
         normaliseURL (task_u x) \<in> visited (processLink lib t a l)}"
proof (cases rule: processLink_cases[of lib t a l])
  case skip
  then show ?thesis by simp
next
  case (add p)
  then show ?thesis by auto
qed

lemma passing_accepted: "r \<in> set (passing lib a t ls) \<Longrightarrow> accepted lib a t r"
  by (simp add: passing_def)

lemma step_adds:
  "\<exists>ts. fetchTrace (startWorker_step lib i s) = fetchTrace s @ map task_u ts \<and>
     visited (audit (startWorker_step lib i s)) \<subseteq>
       visited (audit s) \<union> {normaliseURL r |t r. t \<in> set ts \<and> accepted lib (audit s) t r} \<and>
     set (siteGraph (audit (startWorker_step lib i s))) \<subseteq>
       set (siteGraph (audit s)) \<union>
       {(normaliseURL (task_u t), normaliseURL r, 1) |t r. t \<in> set ts \<and> accepted lib (audit s) t r} \<and>
     set (tasks (audit (startWorker_step lib i s))) \<subseteq>
       set (tasks (audit s)) \<union>
       {\<lparr> task_u = r, task_depth = task_depth t + 1 \<rparr> |t r. t \<in> set ts \<and> accepted lib (audit s) t r}"
proof (cases rule: step_abstract[of lib i s])
  case same
  then show ?thesis by (intro exI[of _ "[]"]) simp
next
  case (dequeue t q)
  then show ?thesis by (intro exI[of _ "[]"]) auto
next
  case (process t)
  show ?thesis
  proof (cases "fetched_links (audit s) t")
    case None
    then show ?thesis using process by (intro exI[of _ "[t]"]) simp
  next
    case (Some ls)
    then have a: "audit (startWorker_step lib i s) = processLinks lib (audit s) t ls"
      using process(3) by simp
    have v: "visited (processLinks lib (audit s) t ls) \<subseteq>
        visited (audit s) \<union> {normaliseURL r |t' r. t' \<in> set [t] \<and> accepted lib (audit s) t' r}"
      using processLinks_visited[of lib "audit s" t ls] passing_accepted[of _ lib "audit s" t ls]
      by auto
    have g: "set (siteGraph (processLinks lib (audit s) t ls)) \<subseteq>
        set (siteGraph (audit s)) \<union>
        {(normaliseURL (task_u t'), normaliseURL r, 1) |t' r. t' \<in> set [t] \<and> accepted lib (audit s) t' r}"
      using processLinks_siteGraph[of lib "audit s" t ls] passing_accepted[of _ lib "audit s" t ls]
      by auto
    have q: "set (tasks (processLinks lib (audit s) t ls)) \<subseteq>
        set (tasks (audit s)) \<union>
        {\<lparr> task_u = r, task_depth = task_depth t' + 1 \<rparr> |t' r. t' \<in> set [t] \<and> accepted lib (audit s) t' r}"
      using processLinks_new_tasks[of lib "audit s" t ls] passing_accepted[of _ lib "audit s" t ls]
      by auto
    show ?thesis
      unfolding a using process(2) v g q by (intro exI[of _ "[t]"]) simp
  qed
qed

lemma exec_adds:
  "\<exists>ts. fetchTrace (exec lib s ev) = fetchTrace s @ map task_u ts \<and>
     visited (audit (exec lib s ev)) \<subseteq>
       visited (audit s) \<union> {normaliseURL r |t r. t \<in> set ts \<and> accepted lib (audit s) t r} \<and>
     set (siteGraph (audit (exec lib s ev))) \<subseteq>
       set (siteGraph (audit s)) \<union>
       {(normaliseURL (task_u t), normaliseURL r, 1) |t r. t \<in> set ts \<and> accepted lib (audit s) t r} \<and>
     set (tasks (audit (exec lib s ev))) \<subseteq>
       set (tasks (audit s)) \<union>
       {\<lparr> task_u = r, task_depth = task_depth t + 1 \<rparr> |t r. t \<in> set ts \<and> accepted lib (audit s) t r}"
proof (cases ev)
  case (Run i)
  then show ?thesis using step_adds[of lib i s] by simp
next
  case Cancel
  then show ?thesis by (intro exI[of _ "[]"]) simp
qed

lemma accepted_exec: "accepted lib (audit (exec lib s ev)) t = accepted lib (audit s) t"
  by (rule accepted_cong) simp_all

lemma run_adds:
  "\<exists>ts. fetchTrace (run lib s sched) = fetchTrace s @ map task_u ts \<and>
     visited (audit (run lib s sched)) \<subseteq>
       visited (audit s) \<union> {normaliseURL r |t r. t \<in> set ts \<and> accepted lib (audit s) t r} \<and>
     set (siteGraph (audit (run lib s sched))) \<subseteq>
       set (siteGraph (audit s)) \<union>
       {(normaliseURL (task_u t), normaliseURL r, 1) |t r. t \<in> set ts \<and> accepted lib (audit s) t r} \<and>
     set (tasks (audit (run lib s sched))) \<subseteq>
       set (tasks (audit s)) \<union>
       {\<lparr> task_u = r, task_depth = task_depth t + 1 \<rparr> |t r. t \<in> set ts \<and> accepted lib (audit s) t r}"
proof (induction sched arbitrary: s)
  case Nil
  then show ?case by (intro exI[of _ "[]"]) simp
next
  case (Cons ev sched)
  let ?s1 = "exec lib s ev"
  obtain t1 where t1: "fetchTrace ?s1 = fetchTrace s @ map task_u t1"
    "visited (audit ?s1) \<subseteq>
       visited (audit s) \<union> {normaliseURL r |t r. t \<in> set t1 \<and> accepted lib (audit s) t r}"
    "set (siteGraph (audit ?s1)) \<subseteq>
       set (siteGraph (audit s)) \<union>
       {(normaliseURL (task_u t), normaliseURL r, 1) |t r. t \<in> set t1 \<and> accepted lib (audit s) t r}"
    "set (tasks (audit ?s1)) \<subseteq>
       set (tasks (audit s)) \<union>
       {\<lparr> task_u = r, task_depth = task_depth t + 1 \<rparr> |t r. t \<in> set t1 \<and> accepted lib (audit s) t r}"
    using exec_adds[of lib s ev] by blast
  obtain t2 where t2: "fetchTrace (run lib ?s1 sched) = fetchTrace ?s1 @ map task_u t2"
    "visited (audit (run lib ?s1 sched)) \<subseteq>
       visited (audit ?s1) \<union> {normaliseURL r |t r. t \<in> set t2 \<and> accepted lib (audit s) t r}"
    "set (siteGraph (audit (run lib ?s1 sched))) \<subseteq>
       set (siteGraph (audit ?s1)) \<union>
       {(normaliseURL (task_u t), normaliseURL r, 1) |t r. t \<in> set t2 \<and> accepted lib (audit s) t r}"
    "set (tasks (audit (run lib ?s1 sched))) \<subseteq>
       set (tasks (audit ?s1)) \<union>
       {\<lparr> task_u = r, task_depth = task_depth t + 1 \<rparr> |t r. t \<in> set t2 \<and> accepted lib (audit s) t r}"
    using Cons.IH[of ?s1] unfolding accepted_exec by blast
  have f: "fetchTrace (run lib s (ev # sched)) = fetchTrace s @ map task_u (t1 @ t2)"
    using t1(1) t2(1) by simp
  have v: "visited (audit (run lib s (ev # sched))) \<subseteq>
       visited (audit s) \<union> {normaliseURL r |t r. t \<in> set (t1 @ t2) \<and> accepted lib (audit s) t r}"
  proof
    fix k assume "k \<in> visited (audit (run lib s (ev # sched)))"
    then have "k \<in> visited (audit ?s1) \<or> k \<in> {normaliseURL r |t r. t \<in> set t2 \<and> accepted lib (audit s) t r}"
      using t2(2) by auto
    then have "k \<in> visited (audit s) \<or> k \<in> {normaliseURL r |t r. t \<in> set t1 \<and> accepted lib (audit s) t r}
        \<or> k \<in> {normaliseURL r |t r. t \<in> set t2 \<and> accepted lib (audit s) t r}"
      using t1(2) by blast
    then show "k \<in> visited (audit s) \<union> {normaliseURL r |t r. t \<in> set (t1 @ t2) \<and> accepted lib (audit s) t r}"
      by auto
  qed
  have g: "set (siteGraph (audit (run lib s (ev # sched)))) \<subseteq>
       set (siteGraph (audit s)) \<union>
       {(normaliseURL (task_u t), normaliseURL r, 1) |t r. t \<in> set (t1 @ t2) \<and> accepted lib (audit s) t r}"
  proof
    fix k assume "k \<in> set (siteGraph (audit (run lib s (ev # sched))))"
    then have "k \<in> set (siteGraph (audit ?s1)) \<or>
        k \<in> {(normaliseURL (task_u t), normaliseURL r, 1) |t r. t \<in> set t2 \<and> accepted lib (audit s) t r}"
      using t2(3) by auto
    then have "k \<in> set (siteGraph (audit s)) \<or>
        k \<in> {(normaliseURL (task_u t), normaliseURL r, 1) |t r. t \<in> set t1 \<and> accepted lib (audit s) t r} \<or>
        k \<in> {(normaliseURL (task_u t), normaliseURL r, 1) |t r. t \<in> set t2 \<and> accepted lib (audit s) t r}"
      using t1(3) by blast
    then show "k \<in> set (siteGraph (audit s)) \<union>
       {(normaliseURL (task_u t), normaliseURL r, 1) |t r. t \<in> set (t1 @ t2) \<and> accepted lib (audit s) t r}"
      by auto
  qed
  have q: "set (tasks (audit (run lib s (ev # sched)))) \<subseteq>
       set (tasks (audit s)) \<union>
       {\<lparr> task_u = r, task_depth = task_depth t + 1 \<rparr> |t r. t \<in> set (t1 @ t2) \<and> accepted lib (audit s) t r}"
  proof
    fix k assume "k \<in> set (tasks (audit (run lib s (ev # sched))))"
    then have "k \<in> set (tasks (audit ?s1)) \<or>
        k \<in> {\<lparr> task_u = r, task_depth = task_depth t + 1 \<rparr> |t r. t \<in> set t2 \<and> accepted lib (audit s) t r}"
      using t2(4) by auto
    then have "k \<in> set (tasks (audit s)) \<or>
        k \<in> {\<lparr> task_u = r, task_depth = task_depth t + 1 \<rparr> |t r. t \<in> set t1 \<and> accepted lib (audit s) t r} \<or>
        k \<in> {\<lparr> task_u = r, task_depth = task_depth t + 1 \<rparr> |t r. t \<in> set t2 \<and> accepted lib (audit s) t r}"
      using t1(4) by blast
    then show "k \<in> set (tasks (audit s)) \<union>
       {\<lparr> task_u = r, task_depth = task_depth t + 1 \<rparr> |t r. t \<in> set (t1 @ t2) \<and> accepted lib (audit s) t r}"
      by auto
  qed
  show ?case by (intro exI[of _ "t1 @ t2"] conjI f v g q)
qed

lemma New_plain: "New test_lib plain_config (Some plain_fetch) (Some plain_extract) = Inr plain_audit"
  by (simp add: New_def test_lib_def plain_config_def plain_audit_def test_Parse_def http_seed_def)

lemma respectRobots_visited:
  assumes "respectRobots lib (fresh a) = (s1, None)"
  shows "visited (audit s1) =
    insert (Scheme (startURL a) @ ''://'' @ Host (startURL a) @ ''/robots.txt'') (visited a)"
  using assms
  by (auto simp add: respectRobots_def Let_def fresh_def split: sum.splits if_splits)

lemma launch_visited:
  assumes "launch lib (fresh a) = (s0, None)"
  shows "visited (audit s0) =
    insert (url_String lib (startURL a))
      (if RespectRobots (config a)
       then insert (Scheme (startURL a) @ ''://'' @ Host (startURL a) @ ''/robots.txt'') (visited a)
       else visited a)"
proof (cases "RespectRobots (config a)")
  case True
  obtain s1 r where r: "respectRobots lib (fresh a) = (s1, r)"
    by (cases "respectRobots lib (fresh a)") auto
  have n: "r = None" using assms True r by (cases r) (simp_all add: launch_def)
  have fr: "startURL (audit s1) = startURL a"
    using respectRobots_frame[OF r] by simp
  have "s0 = s1 \<lparr> audit := (audit s1) \<lparr> tasks := tasks (audit s1) @ [\<lparr> task_u = startURL (audit s1), task_depth = 0 \<rparr>],
                                visited := insert (url_String lib (startURL (audit s1))) (visited (audit s1)) \<rparr>,
                   workers := replicate (nat (MaxWorkers (config (audit s1))))
                                \<lparr> pc = LoopHead, deferred = [] \<rparr> \<rparr>"
    using assms True r n by (simp add: launch_def Let_def)
  then show ?thesis using respectRobots_visited[of lib a s1] r n fr True by simp
next
  case False
  then show ?thesis using assms launch_no_robots[OF False, of lib] by auto
qed

lemma launch_siteGraph:
  assumes "launch lib (fresh a) = (s0, None)"
  shows "siteGraph (audit s0) = siteGraph a" "fetcher (audit s0) = fetcher a"
    "startURL (audit s0) = startURL a"
proof -
  obtain s1 r where r: "(if RespectRobots (config a) then respectRobots lib (fresh a) else (fresh a, None)) = (s1, r)"
    by (cases "(if RespectRobots (config a) then respectRobots lib (fresh a) else (fresh a, None))") auto
  have fr: "siteGraph (audit s1) = siteGraph a \<and> fetcher (audit s1) = fetcher a \<and> startURL (audit s1) = startURL a"
    using r respectRobots_frame[of lib "fresh a" s1 r] by (auto split: if_splits)
  have "r = None \<and> s0 = s1 \<lparr> audit := (audit s1) \<lparr> tasks := tasks (audit s1) @ [\<lparr> task_u = startURL (audit s1), task_depth = 0 \<rparr>],
                                visited := insert (url_String lib (startURL (audit s1))) (visited (audit s1)) \<rparr>,
                   workers := replicate (nat (MaxWorkers (config (audit s1))))
                                \<lparr> pc = LoopHead, deferred = [] \<rparr> \<rparr>"
    using assms r by (cases r) (auto simp add: launch_def Let_def)
  then show "siteGraph (audit s0) = siteGraph a" "fetcher (audit s0) = fetcher a"
    "startURL (audit s0) = startURL a"
    using fr by auto
qed

lemma fetched_links_isl:
  assumes "isl (fetcher a (task_u t))"
  shows "fetched_links a t = None"
  using assms by (cases "fetcher a (task_u t)") (simp_all add: fetched_links_def)

lemma stalled_step:
  assumes "isl (fetcher (audit s) (task_u T))" "set (tasks (audit s)) \<subseteq> {T}" "set_mset (held s) \<subseteq> {T}"
  shows "visited (audit (startWorker_step lib i s)) = visited (audit s) \<and>
    siteGraph (audit (startWorker_step lib i s)) = siteGraph (audit s) \<and>
    set (tasks (audit (startWorker_step lib i s))) \<subseteq> {T} \<and>
    set_mset (held (startWorker_step lib i s)) \<subseteq> {T} \<and>
    (\<exists>more. fetchTrace (startWorker_step lib i s) = fetchTrace s @ more \<and> set more \<subseteq> {task_u T})"
proof (cases rule: step_abstract[of lib i s])
  case same
  then show ?thesis using assms by simp
next
  case (dequeue t q)
  then show ?thesis using assms by auto
next
  case (process t)
  have "t \<in># held s" using process(1) by simp
  then have t: "t = T" using assms(3) by auto
  have h: "set_mset (held (startWorker_step lib i s)) \<subseteq> {T}"
    using assms(3) process(1) by auto
  have a: "audit (startWorker_step lib i s) = audit s"
    using process(3) fetched_links_isl[OF assms(1)] t by simp
  show ?thesis using a h process(2) assms(2) t by simp
qed

lemma stalled_run:
  assumes "isl (fetcher (audit s) (task_u T))" "set (tasks (audit s)) \<subseteq> {T}" "set_mset (held s) \<subseteq> {T}"
  shows "visited (audit (run lib s sched)) = visited (audit s) \<and>
    siteGraph (audit (run lib s sched)) = siteGraph (audit s) \<and>
    (\<exists>more. fetchTrace (run lib s sched) = fetchTrace s @ more \<and> set more \<subseteq> {task_u T})"
  using assms
proof (induction sched arbitrary: s)
  case Nil
  then show ?case by simp
next
  case (Cons ev sched)
  let ?s1 = "exec lib s ev"
  have 1: "visited (audit ?s1) = visited (audit s) \<and>
    siteGraph (audit ?s1) = siteGraph (audit s) \<and>
    set (tasks (audit ?s1)) \<subseteq> {T} \<and> set_mset (held ?s1) \<subseteq> {T} \<and>
    (\<exists>more. fetchTrace ?s1 = fetchTrace s @ more \<and> set more \<subseteq> {task_u T})"
  proof (cases ev)
    case (Run i)
    then show ?thesis using stalled_step[OF Cons.prems, of lib i] by simp
  next
    case Cancel
    then show ?thesis using Cons.prems by simp
  qed
  have f: "isl (fetcher (audit ?s1) (task_u T))" using Cons.prems(1) by simp
  from 1 obtain m1 where m1: "fetchTrace ?s1 = fetchTrace s @ m1" "set m1 \<subseteq> {task_u T}" by blast
  from Cons.IH[OF f] 1 obtain m2 where m2: "fetchTrace (run lib ?s1 sched) = fetchTrace ?s1 @ m2"
    "set m2 \<subseteq> {task_u T}"
    and vg: "visited (audit (run lib ?s1 sched)) = visited (audit ?s1)"
      "siteGraph (audit (run lib ?s1 sched)) = siteGraph (audit ?s1)"
    by blast
  have "fetchTrace (run lib s (ev # sched)) = fetchTrace s @ (m1 @ m2) \<and> set (m1 @ m2) \<subseteq> {task_u T}"
    using m1 m2 by simp
  then show ?case using vg 1 by (simp del: exec.simps)
qed

section \<open>The claims\<close>

subsection \<open>C1: one task per canonical key\<close>

text \<open>
  C1 at the site whose seed page \<open>https://example.com\<close> links to \<open>/\<close>, with
  \<open>MaxDepth = 2\<close> and one worker. \<open>Start\<close> marks the raw string \<open>https://example.com\<close>
  visited, \<open>processLinks\<close> looks for the key \<open>https://example.com/\<close>: the link back to
  the seed is taken as new, a second task with the canonical key of the seed is
  enqueued, and the seed page is fetched twice. For links other than the seed the
  lemma \<open>processLink_enqueues_unvisited\<close> holds: a task is enqueued only for a key that
  was not visited, and the key is visited afterwards.
\<close>

theorem seed_enqueued_twice:
  "url_String test_lib seed_url = ''https://example.com'' \<and>
   normaliseURL seed_url = ''https://example.com/'' \<and>
   tasks (audit (fst (launch test_lib (fresh home_audit)))) = [seed_task] \<and>
   visited (audit (fst (launch test_lib (fresh home_audit)))) = {''https://example.com''} \<and>
   tasks (audit (run test_lib (fst (launch test_lib (fresh home_audit))) [Run 0, Run 0])) =
     [\<lparr> task_u = seed_url \<lparr> Path := ''/'' \<rparr>, task_depth = 1 \<rparr>] \<and>
   normaliseURL (seed_url \<lparr> Path := ''/'' \<rparr>) = normaliseURL seed_url \<and>
   fetchTrace (fst (the (Start test_lib [Run 0, Run 0, Run 0, Run 0, Run 0] home_audit))) =
     [seed_url, seed_url \<lparr> Path := ''/'' \<rparr>]"
  by code_simp

subsection \<open>C2: depth\<close>

text \<open>
  C2. A link of a page of depth \<open>d\<close> is enqueued, at depth \<open>d + 1\<close>, exactly when it is
  newly discovered (it passes the filters and its key is not visited) and
  \<open>d + 1 < MaxDepth\<close>; the seed is enqueued at depth 0. For the chain of three pages
  with \<open>MaxDepth = 2\<close>, any number \<open>n \<ge> 1\<close> of workers, and any schedule without
  cancellation under which \<open>Start\<close> returns: it returns \<open>nil\<close>, exactly the seed and page A
  have been fetched, the graph has exactly the edges seed to A and A to B, the visited
  set has the three entries for the seed, A and B, and the queue is empty. Page B is
  in the queue at no moment of any schedule.
\<close>

theorem depth_semantics:
  "(url_Parse lib l = Inr p \<longrightarrow>
      tasks (processLink lib t a l) =
        tasks a @
        (if accepted lib a t (ResolveReference lib (task_u t) p) \<and>
            normaliseURL (ResolveReference lib (task_u t) p) \<notin> visited a \<and>
            task_depth t + 1 < MaxDepth (config a)
         then [\<lparr> task_u = ResolveReference lib (task_u t) p, task_depth = task_depth t + 1 \<rparr>]
         else [])) \<and>
   (launch lib (fresh a) = (s0, None) \<longrightarrow>
      tasks (audit s0) = tasks a @ [\<lparr> task_u = startURL a, task_depth = 0 \<rparr>]) \<and>
   (1 \<le> n \<and> Cancel \<notin> set sched \<and> Start test_lib sched (chain_pool n) = Some (s, err) \<longrightarrow>
      err = None \<and> fetchTrace s = [seed_url, page_a] \<and>
      siteGraph (audit s) =
        [(''https://example.com/'', ''https://example.com/page-a'', 1),
         (''https://example.com/page-a'', ''https://example.com/page-b'', 1)] \<and>
      visited (audit s) =
        {''https://example.com'', ''https://example.com/page-a'', ''https://example.com/page-b''} \<and>
      card (visited (audit s)) = 3 \<and> tasks (audit s) = []) \<and>
   (\<forall>x\<in>set (tasks (audit (run test_lib (fst (launch test_lib (fresh (chain_pool n)))) sched))).
      task_u x \<noteq> page_b)"
proof -
  have 1: "url_Parse lib l = Inr p \<longrightarrow>
      tasks (processLink lib t a l) =
        tasks a @
        (if accepted lib a t (ResolveReference lib (task_u t) p) \<and>
            normaliseURL (ResolveReference lib (task_u t) p) \<notin> visited a \<and>
            task_depth t + 1 < MaxDepth (config a)
         then [\<lparr> task_u = ResolveReference lib (task_u t) p, task_depth = task_depth t + 1 \<rparr>]
         else [])"
    by (simp add: processLink_eq Let_def)
  have 2: "launch lib (fresh a) = (s0, None) \<longrightarrow>
      tasks (audit s0) = tasks a @ [\<lparr> task_u = startURL a, task_depth = 0 \<rparr>]"
    using launch_ok(2) by blast
  have 3: "1 \<le> n \<and> Cancel \<notin> set sched \<and> Start test_lib sched (chain_pool n) = Some (s, err) \<longrightarrow>
      err = None \<and> fetchTrace s = [seed_url, page_a] \<and>
      siteGraph (audit s) =
        [(''https://example.com/'', ''https://example.com/page-a'', 1),
         (''https://example.com/page-a'', ''https://example.com/page-b'', 1)] \<and>
      visited (audit s) =
        {''https://example.com'', ''https://example.com/page-a'', ''https://example.com/page-b''} \<and>
      card (visited (audit s)) = 3 \<and> tasks (audit s) = []"
  proof (intro impI, elim conjE)
    assume "1 \<le> n" "Cancel \<notin> set sched" "Start test_lib sched (chain_pool n) = Some (s, err)"
    then have f: "err = None" "progress s = chain_stages ! 4"
      using chain_final by blast+
    have v: "visited (audit s) =
        {''https://example.com'', ''https://example.com/page-a'', ''https://example.com/page-b''}"
      using f(2) unfolding stage_simps progress_def by simp
    have "card (visited (audit s)) = 3" unfolding v by simp
    then show "err = None \<and> fetchTrace s = [seed_url, page_a] \<and>
      siteGraph (audit s) =
        [(''https://example.com/'', ''https://example.com/page-a'', 1),
         (''https://example.com/page-a'', ''https://example.com/page-b'', 1)] \<and>
      visited (audit s) =
        {''https://example.com'', ''https://example.com/page-a'', ''https://example.com/page-b''} \<and>
      card (visited (audit s)) = 3 \<and> tasks (audit s) = []"
      using f unfolding stage_simps progress_def by simp
  qed
  show ?thesis by (rule conjI[OF 1 conjI[OF 2 conjI[OF 3 chain_never_page_b]]])
qed

theorem depth_semantics_witness:
  "url_Parse test_lib ''/page-a'' = Inr (reference ''/page-a'') \<and>
   tasks (processLink test_lib seed_task chain_audit ''/page-a'') = [page_a_task] \<and>
   url_Parse test_lib ''/page-b'' = Inr (reference ''/page-b'') \<and>
   tasks (processLink test_lib page_a_task chain_audit ''/page-b'') = [] \<and>
   tasks (audit (fst (launch test_lib (fresh chain_audit)))) = [seed_task] \<and>
   1 \<le> (5::int) \<and> Cancel \<notin> set five_workers \<and>
   snd (the (Start test_lib five_workers (chain_pool 5))) = None \<and>
   fetchTrace (fst (the (Start test_lib five_workers (chain_pool 5)))) = [seed_url, page_a] \<and>
   card (visited (audit (fst (the (Start test_lib five_workers (chain_pool 5)))))) = 3 \<and>
   tasks (audit (fst (the (Start test_lib five_workers (chain_pool 5))))) = []"
proof -
  have c: "Cancel \<notin> set five_workers" by (simp add: five_workers_def)
  have "case Start test_lib five_workers (chain_pool 5) of None \<Rightarrow> False | Some (s, e) \<Rightarrow> True"
    by code_simp
  then obtain s err where s: "Start test_lib five_workers (chain_pool 5) = Some (s, err)"
    by (auto split: option.splits)
  have pa: "url_Parse test_lib ''/page-a'' = Inr (reference ''/page-a'')"
    and pb: "url_Parse test_lib ''/page-b'' = Inr (reference ''/page-b'')"
    by (simp_all add: test_lib_def test_Parse_def)
  have la: "launch test_lib (fresh chain_audit) = (fst (launch test_lib (fresh chain_audit)), None)"
    by (simp add: launch_no_robots chain_audit_def audit_of_def test_config_def)
  have ia: "(if accepted test_lib chain_audit seed_task (ResolveReference test_lib (task_u seed_task) (reference ''/page-a'')) \<and>
            normaliseURL (ResolveReference test_lib (task_u seed_task) (reference ''/page-a'')) \<notin> visited chain_audit \<and>
            task_depth seed_task + 1 < MaxDepth (config chain_audit)
         then [\<lparr> task_u = ResolveReference test_lib (task_u seed_task) (reference ''/page-a''),
                 task_depth = task_depth seed_task + 1 \<rparr>]
         else []) = [page_a_task]"
    by code_simp
  have ib: "(if accepted test_lib chain_audit page_a_task (ResolveReference test_lib (task_u page_a_task) (reference ''/page-b'')) \<and>
            normaliseURL (ResolveReference test_lib (task_u page_a_task) (reference ''/page-b'')) \<notin> visited chain_audit \<and>
            task_depth page_a_task + 1 < MaxDepth (config chain_audit)
         then [\<lparr> task_u = ResolveReference test_lib (task_u page_a_task) (reference ''/page-b''),
                 task_depth = task_depth page_a_task + 1 \<rparr>]
         else []) = []"
    by code_simp
  have ta: "tasks chain_audit = []" "startURL chain_audit = seed_url"
    by (simp_all add: chain_audit_def audit_of_def)
  note d1 = depth_semantics[of test_lib "''/page-a''" "reference ''/page-a''" seed_task chain_audit
      "fst (launch test_lib (fresh chain_audit))" 5 five_workers s err]
  note d2 = depth_semantics[of test_lib "''/page-b''" "reference ''/page-b''" page_a_task chain_audit
      "fst (launch test_lib (fresh chain_audit))" 5 five_workers s err]
  have r1: "tasks (processLink test_lib seed_task chain_audit ''/page-a'') = [page_a_task]"
    using d1 pa unfolding ia ta by simp
  have r2: "tasks (processLink test_lib page_a_task chain_audit ''/page-b'') = []"
    using d2 pb unfolding ib ta by simp
  have r3: "tasks (audit (fst (launch test_lib (fresh chain_audit)))) = [seed_task]"
    using d1 la unfolding ta seed_task_def by simp
  have r4: "err = None \<and> fetchTrace s = [seed_url, page_a] \<and> card (visited (audit s)) = 3 \<and>
      tasks (audit s) = []"
    using d1 c s by simp
  show ?thesis unfolding s option.sel fst_conv snd_conv using pa pb r1 r2 r3 r4 c by simp
qed

subsection \<open>C3: the scheme allow-list\<close>

text \<open>
  C3, as stated, fails: with \<open>ValidSchemes = "http"\<close> the constructor succeeds and the
  allow-list is not the set of the supplied entries, since \<open>https\<close> stays in it.
\<close>

theorem New_schemes_counterexample:
  "\<not> isl (New test_lib (test_config \<lparr> ValidSchemes := ''http'' \<rparr>) (Some chain_fetch) (Some chain_extract)) \<and>
   schemes (projr (New test_lib (test_config \<lparr> ValidSchemes := ''http'' \<rparr>) (Some chain_fetch) (Some chain_extract)))
     \<noteq> set (Split ''http'' CHR '','')"
  by (simp add: New_def test_lib_def test_config_def test_Parse_def seed_url_def)

text \<open>
  C3, amended. The allow-list of a constructed \<open>Audit\<close> is \<open>{https}\<close> when \<open>ValidSchemes\<close>
  is empty, and otherwise \<open>https\<close> together with the comma-separated entries of
  \<open>ValidSchemes\<close>, each taken as it is written. A link whose resolved scheme is not in the
  allow-list is not followed: processing it leaves the \<open>Audit\<close> as it was.
\<close>

theorem New_schemes:
  assumes "New lib c f e = Inr a"
  shows "schemes a =
      (if ValidSchemes c = [] then {''https''}
       else insert ''https'' (set (Split (ValidSchemes c) CHR '',''))) \<and>
    (url_Parse lib l = Inr p \<and> Scheme (ResolveReference lib (task_u t) p) \<notin> schemes a \<longrightarrow>
       processLink lib t a l = a)"
proof -
  have "schemes a =
      (if ValidSchemes c = [] then {''https''}
       else insert ''https'' (set (Split (ValidSchemes c) CHR '','')))"
    using assms by (auto simp add: New_def split: option.splits sum.splits if_splits)
  moreover have "url_Parse lib l = Inr p \<and> Scheme (ResolveReference lib (task_u t) p) \<notin> schemes a \<longrightarrow>
       processLink lib t a l = a"
    by (simp add: processLink_eq accepted_def)
  ultimately show ?thesis by blast
qed

theorem New_schemes_witness:
  "New test_lib test_config (Some chain_fetch) (Some chain_extract) = Inr chain_audit \<and>
   schemes chain_audit = {''https'', ''http''} \<and>
   url_Parse test_lib ''ftp://example.com/file'' =
     Inr \<lparr> Scheme = ''ftp'', Host = ''example.com'', Path = ''/file'', RawQuery = [], Fragment = [] \<rparr> \<and>
   processLink test_lib seed_task chain_audit ''ftp://example.com/file'' = chain_audit"
proof -
  have p: "url_Parse test_lib ''ftp://example.com/file'' =
     Inr \<lparr> Scheme = ''ftp'', Host = ''example.com'', Path = ''/file'', RawQuery = [], Fragment = [] \<rparr>"
    by (simp add: test_lib_def test_Parse_def)
  have s: "Scheme (ResolveReference test_lib (task_u seed_task)
       \<lparr> Scheme = ''ftp'', Host = ''example.com'', Path = ''/file'', RawQuery = [], Fragment = [] \<rparr>)
       \<notin> schemes chain_audit"
    by (simp add: test_lib_def test_Resolve_def chain_audit_def audit_of_def)
  have sc: "schemes chain_audit = {''https'', ''http''}"
    by (simp add: chain_audit_def audit_of_def)
  show ?thesis
    using New_schemes[OF New_chain, of "''ftp://example.com/file''"
        "\<lparr> Scheme = ''ftp'', Host = ''example.com'', Path = ''/file'', RawQuery = [], Fragment = [] \<rparr>"
        seed_task] p s New_chain sc
    by blast
qed

subsection \<open>C4: filtered links\<close>

text \<open>
  C4, as stated, fails for a seed whose scheme is not in the allow-list. With the seed
  \<open>http://example.com/\<close> and the default allow-list \<open>{https}\<close>, the link \<open>/\<close> of the seed
  page resolves to the seed, whose scheme \<open>http\<close> is not allowed: the link is filtered.
  Yet its key \<open>http://example.com/\<close> is in the visited set, where \<open>Start\<close> put it, and is
  a graph node, as the source of the edge to page A.
\<close>

theorem filtered_link_key_counterexample:
  "New test_lib plain_config (Some plain_fetch) (Some plain_extract) = Inr plain_audit \<and>
   fetched_links plain_audit \<lparr> task_u = http_seed, task_depth = 0 \<rparr> =
     Some [''https://example.com/page-a'', ''/''] \<and>
   url_Parse test_lib ''/'' = Inr (reference ''/'') \<and>
   ResolveReference test_lib http_seed (reference ''/'') = http_seed \<and>
   Scheme http_seed \<notin> schemes plain_audit \<and>
   normaliseURL http_seed = ''http://example.com/'' \<and>
   snd (the (Start test_lib one_worker plain_audit)) = None \<and>
   fetchTrace (fst (the (Start test_lib one_worker plain_audit))) = [http_seed, page_a] \<and>
   normaliseURL http_seed \<in> visited (audit (fst (the (Start test_lib one_worker plain_audit)))) \<and>
   normaliseURL http_seed \<in> graph_nodes (siteGraph (audit (fst (the (Start test_lib one_worker plain_audit)))))"
proof -
  have "fetched_links plain_audit \<lparr> task_u = http_seed, task_depth = 0 \<rparr> =
     Some [''https://example.com/page-a'', ''/''] \<and>
   url_Parse test_lib ''/'' = Inr (reference ''/'') \<and>
   ResolveReference test_lib http_seed (reference ''/'') = http_seed \<and>
   Scheme http_seed \<notin> schemes plain_audit \<and>
   normaliseURL http_seed = ''http://example.com/'' \<and>
   snd (the (Start test_lib one_worker plain_audit)) = None \<and>
   fetchTrace (fst (the (Start test_lib one_worker plain_audit))) = [http_seed, page_a] \<and>
   normaliseURL http_seed \<in> visited (audit (fst (the (Start test_lib one_worker plain_audit)))) \<and>
   normaliseURL http_seed \<in> graph_nodes (siteGraph (audit (fst (the (Start test_lib one_worker plain_audit)))))"
    by code_simp
  then show ?thesis using New_plain by blast
qed

text \<open>
  C4, amended. Processing a link whose resolved host, stripped of \<open>www.\<close>, differs from
  that of the source page, or whose resolved scheme is not in the allow-list, or whose
  resolved path an active robots policy disallows for the configured agent, leaves the
  \<open>Audit\<close> as it was: it adds no visited entry, no graph node, no edge and no task. What
  a run adds comes from URLs that pass the three filters against a page that the run
  fetched, the fetches of the run being those of a list \<open>ts\<close> of tasks: every visited
  entry after the run was there before it or is the key of a URL that passes against
  a task of \<open>ts\<close>; every graph node was there before or is the key of a page of \<open>ts\<close> or
  of a URL that passes against it; every edge was there before or goes from the key of
  a page of \<open>ts\<close> to the key of a URL that passes against it, with weight 1; every
  queued task was there before or is for a URL that passes against a task of \<open>ts\<close>, one
  level below that task. A URL passes against a task exactly when its scheme is in the
  allow-list, its host is that of the task's page up to \<open>www.\<close>, and the robots policy,
  if there is one, allows its path.
\<close>

theorem filtered_links_leave_no_trace:
  "(url_Parse lib l = Inr p \<and>
      (normaliseHost (Host (ResolveReference lib (task_u t) p)) \<noteq> normaliseHost (Host (task_u t)) \<or>
       Scheme (ResolveReference lib (task_u t) p) \<notin> schemes a) \<longrightarrow>
      processLink lib t a l = a) \<and>
   (url_Parse lib l = Inr p \<and> robotsData a = Some rd \<and>
      \<not> TestAgent lib rd (Path (ResolveReference lib (task_u t) p)) (Agent (config a)) \<longrightarrow>
      processLink lib t a l = a) \<and>
   (\<exists>ts. fetched_by lib s sched = map task_u ts \<and>
      (\<forall>k\<in>visited (audit (run lib s sched)).
         k \<in> visited (audit s) \<or>
         (\<exists>t'\<in>set ts. \<exists>r. accepted lib (audit s) t' r \<and> k = normaliseURL r)) \<and>
      (\<forall>n\<in>graph_nodes (siteGraph (audit (run lib s sched))).
         n \<in> graph_nodes (siteGraph (audit s)) \<or>
         (\<exists>t'\<in>set ts. n = normaliseURL (task_u t') \<or>
            (\<exists>r. accepted lib (audit s) t' r \<and> n = normaliseURL r))) \<and>
      (\<forall>e\<in>set (siteGraph (audit (run lib s sched))).
         e \<in> set (siteGraph (audit s)) \<or>
         (\<exists>t'\<in>set ts. \<exists>r. accepted lib (audit s) t' r \<and>
            e = (normaliseURL (task_u t'), normaliseURL r, 1))) \<and>
      (\<forall>x\<in>set (tasks (audit (run lib s sched))).
         x \<in> set (tasks (audit s)) \<or>
         (\<exists>t'\<in>set ts. \<exists>r. accepted lib (audit s) t' r \<and>
            x = \<lparr> task_u = r, task_depth = task_depth t' + 1 \<rparr>))) \<and>
   (accepted lib a t u \<longleftrightarrow>
      Scheme u \<in> schemes a \<and> normaliseHost (Host (task_u t)) = normaliseHost (Host u) \<and>
      (\<forall>rd'. robotsData a = Some rd' \<longrightarrow> TestAgent lib rd' (Path u) (Agent (config a))))"
proof -
  have 1: "url_Parse lib l = Inr p \<and>
      (normaliseHost (Host (ResolveReference lib (task_u t) p)) \<noteq> normaliseHost (Host (task_u t)) \<or>
       Scheme (ResolveReference lib (task_u t) p) \<notin> schemes a) \<longrightarrow>
      processLink lib t a l = a"
  proof (cases rule: processLink_cases[of lib t a l])
    case skip
    then show ?thesis by simp
  next
    case (add p')
    have s: "Scheme (ResolveReference lib (task_u t) p') \<in> schemes a"
      and h: "normaliseHost (Host (task_u t)) = normaliseHost (Host (ResolveReference lib (task_u t) p'))"
      using add(2) by (simp_all add: accepted_def)
    show ?thesis
    proof (intro impI, elim conjE)
      assume "url_Parse lib l = Inr p"
      then have e: "p' = p" using add(1) by simp
      assume "normaliseHost (Host (ResolveReference lib (task_u t) p)) \<noteq> normaliseHost (Host (task_u t)) \<or>
         Scheme (ResolveReference lib (task_u t) p) \<notin> schemes a"
      then have False using s h[symmetric] unfolding e by blast
      then show "processLink lib t a l = a" ..
    qed
  qed
  have 2: "url_Parse lib l = Inr p \<and> robotsData a = Some rd \<and>
      \<not> TestAgent lib rd (Path (ResolveReference lib (task_u t) p)) (Agent (config a)) \<longrightarrow>
      processLink lib t a l = a"
  proof (cases rule: processLink_cases[of lib t a l])
    case skip
    then show ?thesis by simp
  next
    case (add p')
    show ?thesis
    proof (intro impI, elim conjE)
      assume "url_Parse lib l = Inr p"
      then have e: "p' = p" using add(1) by simp
      assume "robotsData a = Some rd"
        and "\<not> TestAgent lib rd (Path (ResolveReference lib (task_u t) p)) (Agent (config a))"
      then have False using add(2) unfolding e by (simp add: accepted_def)
      then show "processLink lib t a l = a" ..
    qed
  qed
  obtain ts where ts: "fetchTrace (run lib s sched) = fetchTrace s @ map task_u ts"
    and v: "visited (audit (run lib s sched)) \<subseteq>
       visited (audit s) \<union> {normaliseURL r |t r. t \<in> set ts \<and> accepted lib (audit s) t r}"
    and g: "set (siteGraph (audit (run lib s sched))) \<subseteq>
       set (siteGraph (audit s)) \<union>
       {(normaliseURL (task_u t), normaliseURL r, 1) |t r. t \<in> set ts \<and> accepted lib (audit s) t r}"
    and q: "set (tasks (audit (run lib s sched))) \<subseteq>
       set (tasks (audit s)) \<union>
       {\<lparr> task_u = r, task_depth = task_depth t + 1 \<rparr> |t r. t \<in> set ts \<and> accepted lib (audit s) t r}"
    using run_adds[of lib s sched] by blast
  have f: "fetched_by lib s sched = map task_u ts"
    by (simp add: fetched_by_def ts)
  have v': "\<forall>k\<in>visited (audit (run lib s sched)).
         k \<in> visited (audit s) \<or>
         (\<exists>t'\<in>set ts. \<exists>r. accepted lib (audit s) t' r \<and> k = normaliseURL r)"
    using v by blast
  have g': "\<forall>e\<in>set (siteGraph (audit (run lib s sched))).
         e \<in> set (siteGraph (audit s)) \<or>
         (\<exists>t'\<in>set ts. \<exists>r. accepted lib (audit s) t' r \<and>
            e = (normaliseURL (task_u t'), normaliseURL r, 1))"
    using g by blast
  have q': "\<forall>x\<in>set (tasks (audit (run lib s sched))).
         x \<in> set (tasks (audit s)) \<or>
         (\<exists>t'\<in>set ts. \<exists>r. accepted lib (audit s) t' r \<and>
            x = \<lparr> task_u = r, task_depth = task_depth t' + 1 \<rparr>)"
    using q by blast
  have n': "\<forall>n\<in>graph_nodes (siteGraph (audit (run lib s sched))).
         n \<in> graph_nodes (siteGraph (audit s)) \<or>
         (\<exists>t'\<in>set ts. n = normaliseURL (task_u t') \<or>
            (\<exists>r. accepted lib (audit s) t' r \<and> n = normaliseURL r))"
  proof
    fix n assume "n \<in> graph_nodes (siteGraph (audit (run lib s sched)))"
    then obtain e where e: "e \<in> set (siteGraph (audit (run lib s sched)))"
      "n = fst e \<or> n = fst (snd e)"
      by (auto simp add: graph_nodes_def)
    from g' e(1) consider (old) "e \<in> set (siteGraph (audit s))"
      | (new) t' r where "t' \<in> set ts" "accepted lib (audit s) t' r"
          "e = (normaliseURL (task_u t'), normaliseURL r, 1)"
      by blast
    then show "n \<in> graph_nodes (siteGraph (audit s)) \<or>
         (\<exists>t'\<in>set ts. n = normaliseURL (task_u t') \<or>
            (\<exists>r. accepted lib (audit s) t' r \<and> n = normaliseURL r))"
    proof cases
      case old
      then have "n \<in> graph_nodes (siteGraph (audit s))"
        using e(2) by (auto simp add: graph_nodes_def intro: rev_image_eqI)
      then show ?thesis ..
    next
      case new
      then have "n = normaliseURL (task_u t') \<or> (\<exists>r. accepted lib (audit s) t' r \<and> n = normaliseURL r)"
        using e(2) by auto
      then show ?thesis using new(1) by blast
    qed
  qed
  have 3: "\<exists>ts. fetched_by lib s sched = map task_u ts \<and>
      (\<forall>k\<in>visited (audit (run lib s sched)).
         k \<in> visited (audit s) \<or>
         (\<exists>t'\<in>set ts. \<exists>r. accepted lib (audit s) t' r \<and> k = normaliseURL r)) \<and>
      (\<forall>n\<in>graph_nodes (siteGraph (audit (run lib s sched))).
         n \<in> graph_nodes (siteGraph (audit s)) \<or>
         (\<exists>t'\<in>set ts. n = normaliseURL (task_u t') \<or>
            (\<exists>r. accepted lib (audit s) t' r \<and> n = normaliseURL r))) \<and>
      (\<forall>e\<in>set (siteGraph (audit (run lib s sched))).
         e \<in> set (siteGraph (audit s)) \<or>
         (\<exists>t'\<in>set ts. \<exists>r. accepted lib (audit s) t' r \<and>
            e = (normaliseURL (task_u t'), normaliseURL r, 1))) \<and>
      (\<forall>x\<in>set (tasks (audit (run lib s sched))).
         x \<in> set (tasks (audit s)) \<or>
         (\<exists>t'\<in>set ts. \<exists>r. accepted lib (audit s) t' r \<and>
            x = \<lparr> task_u = r, task_depth = task_depth t' + 1 \<rparr>))"
    by (rule exI[of _ ts]) (rule conjI[OF f conjI[OF v' conjI[OF n' conjI[OF g' q']]]])
  have 4: "accepted lib a t u \<longleftrightarrow>
      Scheme u \<in> schemes a \<and> normaliseHost (Host (task_u t)) = normaliseHost (Host u) \<and>
      (\<forall>rd'. robotsData a = Some rd' \<longrightarrow> TestAgent lib rd' (Path u) (Agent (config a)))"
    by (cases "robotsData a") (simp_all add: accepted_def)
  show ?thesis by (rule conjI[OF 1 conjI[OF 2 conjI[OF 3 4]]])
qed

theorem filtered_links_leave_no_trace_witness:
  "url_Parse test_lib ''http://somethingelse.com'' =
     Inr \<lparr> Scheme = ''http'', Host = ''somethingelse.com'', Path = [], RawQuery = [], Fragment = [] \<rparr> \<and>
   normaliseHost ''somethingelse.com'' \<noteq> normaliseHost (Host (task_u seed_task)) \<and>
   processLink test_lib seed_task guarded_audit ''http://somethingelse.com'' = guarded_audit \<and>
   url_Parse test_lib ''https://example.com/forbidden'' = Inr (seed_url \<lparr> Path := ''/forbidden'' \<rparr>) \<and>
   robotsData guarded_audit = Some [''/forbidden''] \<and>
   \<not> TestAgent test_lib [''/forbidden''] ''/forbidden'' (Agent (config guarded_audit)) \<and>
   processLink test_lib seed_task guarded_audit ''https://example.com/forbidden'' = guarded_audit \<and>
   accepted test_lib guarded_audit seed_task page_a \<and>
   ''https://example.com/page-a'' \<in>
     visited (audit (run test_lib (fst (launch test_lib (fresh plain_audit))) [Run 0, Run 0])) \<and>
   ''https://example.com/page-a'' \<notin> visited (audit (fst (launch test_lib (fresh plain_audit)))) \<and>
   (''http://example.com/'', ''https://example.com/page-a'', 1) \<in>
     set (siteGraph (audit (run test_lib (fst (launch test_lib (fresh plain_audit))) [Run 0, Run 0]))) \<and>
   \<lparr> task_u = page_a, task_depth = 1 \<rparr> \<in>
     set (tasks (audit (run test_lib (fst (launch test_lib (fresh plain_audit))) [Run 0, Run 0]))) \<and>
   (\<exists>ts. fetched_by test_lib (fst (launch test_lib (fresh plain_audit))) [Run 0, Run 0] = map task_u ts \<and>
      (\<exists>t'\<in>set ts. \<exists>r. accepted test_lib (audit (fst (launch test_lib (fresh plain_audit)))) t' r \<and>
         ''https://example.com/page-a'' = normaliseURL r))"
proof -
  let ?ext = "\<lparr> Scheme = ''http'', Host = ''somethingelse.com'', Path = [], RawQuery = [], Fragment = [] \<rparr>"
  let ?s0 = "fst (launch test_lib (fresh plain_audit))"
  have p1: "url_Parse test_lib ''http://somethingelse.com'' = Inr ?ext"
    by (simp add: test_lib_def test_Parse_def)
  have r1: "ResolveReference test_lib (task_u seed_task) ?ext = ?ext"
    by (simp add: test_lib_def test_Resolve_def)
  have h1: "normaliseHost ''somethingelse.com'' \<noteq> normaliseHost (Host (task_u seed_task))"
    by (simp add: normaliseHost_def TrimPrefix_def HasPrefix_def seed_task_def seed_url_def)
  have p2: "url_Parse test_lib ''https://example.com/forbidden'' = Inr (seed_url \<lparr> Path := ''/forbidden'' \<rparr>)"
    by (simp add: test_lib_def test_Parse_def)
  have r2: "ResolveReference test_lib (task_u seed_task) (seed_url \<lparr> Path := ''/forbidden'' \<rparr>) =
      seed_url \<lparr> Path := ''/forbidden'' \<rparr>"
    by (simp add: test_lib_def test_Resolve_def seed_url_def)
  have rd: "robotsData guarded_audit = Some [''/forbidden'']"
    by (simp add: guarded_audit_def)
  have t2: "\<not> TestAgent test_lib [''/forbidden''] ''/forbidden'' (Agent (config guarded_audit))"
    by (simp add: test_lib_def HasPrefix_def)
  have m: "''https://example.com/page-a'' \<in> visited (audit (run test_lib ?s0 [Run 0, Run 0]))"
    "''https://example.com/page-a'' \<notin> visited (audit ?s0)"
    "(''http://example.com/'', ''https://example.com/page-a'', 1) \<in>
       set (siteGraph (audit (run test_lib ?s0 [Run 0, Run 0])))"
    "\<lparr> task_u = page_a, task_depth = 1 \<rparr> \<in> set (tasks (audit (run test_lib ?s0 [Run 0, Run 0])))"
    by code_simp+
  have ac: "Scheme page_a \<in> schemes guarded_audit \<and>
      normaliseHost (Host (task_u seed_task)) = normaliseHost (Host page_a) \<and>
      (\<forall>rd'. robotsData guarded_audit = Some rd' \<longrightarrow>
         TestAgent test_lib rd' (Path page_a) (Agent (config guarded_audit)))"
    by (simp add: guarded_audit_def chain_audit_def audit_of_def page_a_def seed_task_def seed_url_def
        test_lib_def HasPrefix_def)
  note a = filtered_links_leave_no_trace[of test_lib "''http://somethingelse.com''" ?ext seed_task
      guarded_audit "[''/forbidden'']" ?s0 "[Run 0, Run 0]" page_a]
  note b = filtered_links_leave_no_trace[of test_lib "''https://example.com/forbidden''"
      "seed_url \<lparr> Path := ''/forbidden'' \<rparr>" seed_task guarded_audit "[''/forbidden'']" ?s0
      "[Run 0, Run 0]" page_a]
  have c1: "processLink test_lib seed_task guarded_audit ''http://somethingelse.com'' = guarded_audit"
    using a p1 h1 unfolding r1 by simp
  have c2: "processLink test_lib seed_task guarded_audit ''https://example.com/forbidden'' = guarded_audit"
    using b p2 rd t2 unfolding r2 by simp
  have c3: "accepted test_lib guarded_audit seed_task page_a"
    using a ac by blast
  from a obtain ts where ts: "fetched_by test_lib ?s0 [Run 0, Run 0] = map task_u ts"
    and v: "\<forall>k\<in>visited (audit (run test_lib ?s0 [Run 0, Run 0])).
         k \<in> visited (audit ?s0) \<or>
         (\<exists>t'\<in>set ts. \<exists>r. accepted test_lib (audit ?s0) t' r \<and> k = normaliseURL r)"
    by blast
  have "\<exists>t'\<in>set ts. \<exists>r. accepted test_lib (audit ?s0) t' r \<and>
      ''https://example.com/page-a'' = normaliseURL r"
    using v m(1,2) by blast
  then have c4: "\<exists>ts. fetched_by test_lib ?s0 [Run 0, Run 0] = map task_u ts \<and>
      (\<exists>t'\<in>set ts. \<exists>r. accepted test_lib (audit ?s0) t' r \<and>
         ''https://example.com/page-a'' = normaliseURL r)"
    using ts by blast
  show ?thesis using p1 h1 c1 p2 rd t2 c2 c3 m c4 by blast
qed

subsection \<open>C5: the robots preflight\<close>

text \<open>
  C5. Let robots compliance be on, the \<open>Audit\<close> be as constructed (no robots data) and
  the robots URL parse. If \<open>robots.txt\<close> is answered with status 404, then \<open>Start\<close> returns
  under some schedule; whenever it returns, it returns \<open>nil\<close>, the robots policy is \<open>nil\<close>
  and the robots URL is in the visited set; and throughout the crawl a link is accepted
  on its scheme and host alone. If the fetch of \<open>robots.txt\<close> fails, or its status is
  neither 200 nor 404, or its status is 200 and its body does not parse, then under
  every schedule \<open>Start\<close> returns an error whose text starts with
  \<open>failed to respect robots: \<close>, and leaves the \<open>Audit\<close> untouched (the seed is not
  enqueued) and the pool empty; the only fetch made is that of \<open>robots.txt\<close>.
\<close>

theorem robots_preflight:
  assumes "RespectRobots (config a)" "robotsData a = None"
    and "url_Parse lib (Scheme (startURL a) @ ''://'' @ Host (startURL a) @ ''/robots.txt'') = Inr robots"
  shows
   "(fetcher a robots = Inr resp \<and> StatusCode resp = 404 \<longrightarrow>
       (\<exists>sched. Cancel \<notin> set sched \<and> Start lib sched a \<noteq> None) \<and>
       (\<forall>sched s err. Start lib sched a = Some (s, err) \<longrightarrow>
           err = None \<and> robotsData (audit s) = None \<and>
           Scheme (startURL a) @ ''://'' @ Host (startURL a) @ ''/robots.txt'' \<in> visited (audit s)) \<and>
       (\<forall>sched t r. accepted lib (audit (run lib (fst (launch lib (fresh a))) sched)) t r \<longleftrightarrow>
           Scheme r \<in> schemes a \<and> normaliseHost (Host (task_u t)) = normaliseHost (Host r))) \<and>
    (fetcher a robots = Inl e \<or>
       (fetcher a robots = Inr resp \<and> StatusCode resp \<noteq> 404 \<and>
         (StatusCode resp \<noteq> 200 \<or> (\<exists>b. Body resp = Inr b \<and> FromBytes lib b = Inl e))) \<longrightarrow>
       (\<forall>sched. \<exists>err. Start lib sched a =
             Some ((fresh a) \<lparr> fetchTrace := [robots] \<rparr>, Some (WrapMsg ''failed to respect robots'' err)) \<and>
           Error (WrapMsg ''failed to respect robots'' err) = ''failed to respect robots: '' @ Error err))"
proof (intro conjI impI)
  assume ok: "fetcher a robots = Inr resp \<and> StatusCode resp = 404"
  let ?u = "Scheme (startURL a) @ ''://'' @ Host (startURL a) @ ''/robots.txt''"
  let ?a1 = "a \<lparr> visited := insert ?u (visited a) \<rparr>"
  let ?s0 = "\<lparr> audit = ?a1 \<lparr> tasks := tasks ?a1 @ [\<lparr> task_u = startURL ?a1, task_depth = 0 \<rparr>],
                            visited := insert (url_String lib (startURL ?a1)) (visited ?a1) \<rparr>,
              workers = replicate (nat (MaxWorkers (config ?a1))) \<lparr> pc = LoopHead, deferred = [] \<rparr>,
              fetchTrace = [robots], cancelled = False \<rparr>"
  have l: "launch lib (fresh a) = (?s0, None)"
    using assms(1) respectRobots_404[OF assms(3), of resp] ok
    by (simp add: launch_def fresh_def)
  show "\<exists>sched. Cancel \<notin> set sched \<and> Start lib sched a \<noteq> None"
    by (rule Start_returns)
  show "\<forall>sched s err. Start lib sched a = Some (s, err) \<longrightarrow>
           err = None \<and> robotsData (audit s) = None \<and> ?u \<in> visited (audit s)"
  proof (intro allI impI)
    fix sched s err
    assume "Start lib sched a = Some (s, err)"
    then have s: "s = run lib ?s0 sched" "err = None"
      using l by (cases rule: Start_cases; simp)+
    have "?u \<in> visited (audit ?s0)" by simp
    then have "?u \<in> visited (audit s)" unfolding s(1) using visited_run[of ?s0 lib sched] by blast
    moreover have "robotsData (audit s) = None" unfolding s(1) using assms(2) by simp
    ultimately show "err = None \<and> robotsData (audit s) = None \<and> ?u \<in> visited (audit s)"
      using s(2) by simp
  qed
  show "\<forall>sched t r. accepted lib (audit (run lib (fst (launch lib (fresh a))) sched)) t r \<longleftrightarrow>
           Scheme r \<in> schemes a \<and> normaliseHost (Host (task_u t)) = normaliseHost (Host r)"
    unfolding l using assms(2) by (simp add: accepted_def)
next
  assume bad: "fetcher a robots = Inl e \<or>
       (fetcher a robots = Inr resp \<and> StatusCode resp \<noteq> 404 \<and>
         (StatusCode resp \<noteq> 200 \<or> (\<exists>b. Body resp = Inr b \<and> FromBytes lib b = Inl e)))"
  obtain err where err: "respectRobots lib (fresh a) = ((fresh a) \<lparr> fetchTrace := [robots] \<rparr>, Some err)"
    using respectRobots_fails[OF assms(3) bad] by blast
  have l: "launch lib (fresh a) =
      ((fresh a) \<lparr> fetchTrace := [robots] \<rparr>, Some (WrapMsg ''failed to respect robots'' err))"
    using assms(1) err by (simp add: launch_def)
  show "\<forall>sched. \<exists>err. Start lib sched a =
             Some ((fresh a) \<lparr> fetchTrace := [robots] \<rparr>, Some (WrapMsg ''failed to respect robots'' err)) \<and>
           Error (WrapMsg ''failed to respect robots'' err) = ''failed to respect robots: '' @ Error err"
    using l by (simp add: Start_def)
qed

theorem robots_preflight_witness:
  "RespectRobots (config robots_audit) \<and> robotsData robots_audit = None \<and>
   url_Parse test_lib (Scheme (startURL robots_audit) @ ''://'' @ Host (startURL robots_audit) @ ''/robots.txt'')
     = Inr (seed_url \<lparr> Path := ''/robots.txt'' \<rparr>) \<and>
   fetcher robots_audit (seed_url \<lparr> Path := ''/robots.txt'' \<rparr>) = Inr \<lparr> StatusCode = 404, Body = Inr [] \<rparr> \<and>
   snd (the (Start test_lib five_workers robots_audit)) = None \<and>
   ''https://example.com/robots.txt'' \<in> visited (audit (fst (the (Start test_lib five_workers robots_audit)))) \<and>
   RespectRobots (config forbidden_audit) \<and> robotsData forbidden_audit = None \<and>
   fetcher forbidden_audit (seed_url \<lparr> Path := ''/robots.txt'' \<rparr>) =
     Inr \<lparr> StatusCode = 403, Body = Inr ''FORBIDDEN!'' \<rparr> \<and>
   (\<exists>err. Start test_lib five_workers forbidden_audit =
      Some ((fresh forbidden_audit) \<lparr> fetchTrace := [seed_url \<lparr> Path := ''/robots.txt'' \<rparr>] \<rparr>,
            Some (WrapMsg ''failed to respect robots'' err)) \<and>
      Error (WrapMsg ''failed to respect robots'' err) = ''failed to respect robots: '' @ Error err)"
proof -
  let ?r = "seed_url \<lparr> Path := ''/robots.txt'' \<rparr>"
  have a1: "RespectRobots (config robots_audit)" "robotsData robots_audit = None"
    by (simp_all add: robots_audit_def audit_of_def test_config_def)
  have u1: "Scheme (startURL robots_audit) @ ''://'' @ Host (startURL robots_audit) @ ''/robots.txt''
      = ''https://example.com/robots.txt''"
    by (simp add: robots_audit_def audit_of_def seed_url_def)
  have a3: "url_Parse test_lib (Scheme (startURL robots_audit) @ ''://'' @ Host (startURL robots_audit) @ ''/robots.txt'')
     = Inr ?r"
    unfolding u1 by (simp add: test_lib_def test_Parse_def)
  have f1: "fetcher robots_audit ?r = Inr \<lparr> StatusCode = 404, Body = Inr [] \<rparr>"
    by (simp add: robots_audit_def audit_of_def chain_fetch_def table_fetch_def test_String_def seed_url_def)
  have "case Start test_lib five_workers robots_audit of None \<Rightarrow> False | Some (s, e) \<Rightarrow> True"
    by code_simp
  then obtain s err where s: "Start test_lib five_workers robots_audit = Some (s, err)"
    by (auto split: option.splits)
  note p = robots_preflight[OF a1 a3, of "\<lparr> StatusCode = 404, Body = Inr [] \<rparr>"]
  have c1: "err = None \<and> ''https://example.com/robots.txt'' \<in> visited (audit s)"
    using p f1 s unfolding u1 by simp
  have b1: "RespectRobots (config forbidden_audit)" "robotsData forbidden_audit = None"
    by (simp_all add: forbidden_audit_def audit_of_def test_config_def)
  have u2: "Scheme (startURL forbidden_audit) @ ''://'' @ Host (startURL forbidden_audit) @ ''/robots.txt''
      = ''https://example.com/robots.txt''"
    by (simp add: forbidden_audit_def audit_of_def seed_url_def)
  have b3: "url_Parse test_lib (Scheme (startURL forbidden_audit) @ ''://'' @ Host (startURL forbidden_audit) @ ''/robots.txt'')
     = Inr ?r"
    unfolding u2 by (simp add: test_lib_def test_Parse_def)
  have f2: "fetcher forbidden_audit ?r = Inr \<lparr> StatusCode = 403, Body = Inr ''FORBIDDEN!'' \<rparr>"
    by (simp add: forbidden_audit_def audit_of_def forbidden_fetch_def table_fetch_def test_String_def seed_url_def)
  note q = robots_preflight[OF b1 b3, of "\<lparr> StatusCode = 403, Body = Inr ''FORBIDDEN!'' \<rparr>"]
  have c2: "\<exists>err. Start test_lib five_workers forbidden_audit =
      Some ((fresh forbidden_audit) \<lparr> fetchTrace := [?r] \<rparr>,
            Some (WrapMsg ''failed to respect robots'' err)) \<and>
      Error (WrapMsg ''failed to respect robots'' err) = ''failed to respect robots: '' @ Error err"
    using q f2 by simp
  show ?thesis unfolding s option.sel fst_conv snd_conv using a1 a3 f1 c1 b1 f2 c2 by blast
qed

subsection \<open>C6: errors of a single task\<close>

text \<open>
  C6, as stated, fails in three places. A status that is not 2xx and is below 400 does
  not drop the task: the seed page is answered with status 302 and a body, the worker
  extracts its links and processes them, page A is enqueued and an edge recorded. With
  robots compliance on and \<open>robots.txt\<close> answered with 404, when the only page fetch
  (the seed) fails, \<open>Start\<close> returns \<open>nil\<close> and the visited set holds the robots URL
  beside the seed entry. With robots compliance on and a fetcher that fails on every
  URL, \<open>Start\<close> returns the error of the robots preflight.
\<close>

theorem status_below_400_counterexample:
  "fetcher moved_audit seed_url = Inr \<lparr> StatusCode = 302, Body = Inr ''to A'' \<rparr> \<and>
   pc (workers (run test_lib (fst (launch test_lib (fresh moved_audit))) [Run 0]) ! 0) = Dequeued seed_task \<and>
   tasks (audit (run test_lib (fst (launch test_lib (fresh moved_audit))) [Run 0])) = [] \<and>
   tasks (audit (run test_lib (fst (launch test_lib (fresh moved_audit))) [Run 0, Run 0])) = [page_a_task] \<and>
   siteGraph (audit (run test_lib (fst (launch test_lib (fresh moved_audit))) [Run 0, Run 0])) =
     [(''https://example.com/'', ''https://example.com/page-a'', 1)] \<and>
   fetcher stalled_audit seed_url = Inl (Foreign ''fetch error'') \<and>
   snd (the (Start test_lib five_workers stalled_audit)) = None \<and>
   fetchTrace (fst (the (Start test_lib five_workers stalled_audit))) =
     [seed_url \<lparr> Path := ''/robots.txt'' \<rparr>, seed_url] \<and>
   visited (audit (fst (the (Start test_lib five_workers stalled_audit)))) =
     {''https://example.com/robots.txt'', ''https://example.com''} \<and>
   fetcher offline_audit seed_url = Inl (Foreign ''fetch error'') \<and>
   fetcher offline_audit (seed_url \<lparr> Path := ''/robots.txt'' \<rparr>) = Inl (Foreign ''fetch error'') \<and>
   map_option Error (snd (the (Start test_lib five_workers offline_audit))) =
     Some ''failed to respect robots: error fetching robots.txt: fetch error''"
  by code_simp

text \<open>
  C6, amended. When a worker holds a task and the fetch fails, or the status is 400 or
  more, or the extraction fails, its step leaves the \<open>Audit\<close> as it was (no link is
  processed), records the fetch, changes no other worker and puts the worker back at
  the head of its loop. When the status is below 400, 2xx or not, and the extraction
  succeeds, its step processes the extracted links, and likewise records the fetch,
  changes no other worker and puts the worker back at the head of its loop. \<open>Start\<close>
  returns under some schedule, whatever fetcher and extractor do; an error that \<open>Start\<close>
  returns is the wrapped error of the robots preflight. When \<open>Start\<close> gets past the
  preflight (it is off, or it passes) on a constructed \<open>Audit\<close> (empty queue) and the
  fetch of the seed fails, as it does when every page fetch fails, then whenever
  \<open>Start\<close> returns it returns \<open>nil\<close>, the crawl has fetched no page but the seed, the graph
  is unchanged, and the visited set has gained the entries that \<open>Start\<close> itself makes and
  no other: the seed entry and, with robots compliance on, the robots URL.
\<close>

theorem per_task_errors:
  "(i < length (workers s) \<and> pc (workers s ! i) = Dequeued t \<and>
      (fetcher (audit s) (task_u t) = Inl e \<or>
       (fetcher (audit s) (task_u t) = Inr resp \<and>
          (400 \<le> StatusCode resp \<or> extractor (audit s) (task_u t) (Body resp) = Inl e))) \<longrightarrow>
      audit (startWorker_step lib i s) = audit s \<and>
      pc (workers (startWorker_step lib i s) ! i) = LoopHead \<and>
      fetchTrace (startWorker_step lib i s) = fetchTrace s @ [task_u t] \<and>
      cancelled (startWorker_step lib i s) = cancelled s \<and>
      (\<forall>j. j \<noteq> i \<longrightarrow> workers (startWorker_step lib i s) ! j = workers s ! j)) \<and>
   (i < length (workers s) \<and> pc (workers s ! i) = Dequeued t \<and>
      fetcher (audit s) (task_u t) = Inr resp \<and> StatusCode resp < 400 \<and>
      extractor (audit s) (task_u t) (Body resp) = Inr links \<longrightarrow>
      audit (startWorker_step lib i s) = processLinks lib (audit s) t links \<and>
      pc (workers (startWorker_step lib i s) ! i) = LoopHead \<and>
      fetchTrace (startWorker_step lib i s) = fetchTrace s @ [task_u t] \<and>
      cancelled (startWorker_step lib i s) = cancelled s \<and>
      (\<forall>j. j \<noteq> i \<longrightarrow> workers (startWorker_step lib i s) ! j = workers s ! j)) \<and>
   (\<exists>sched. Cancel \<notin> set sched \<and> Start lib sched a \<noteq> None) \<and>
   (Start lib sched a = Some (s', Some err) \<longrightarrow>
      RespectRobots (config a) \<and>
      (\<exists>e'. respectRobots lib (fresh a) = (s', Some e') \<and>
            err = WrapMsg ''failed to respect robots'' e')) \<and>
   (launch lib (fresh a) = (s0, None) \<and> tasks a = [] \<and> isl (fetcher a (startURL a)) \<and>
      Start lib sched a = Some (s', err') \<longrightarrow>
      err' = None \<and> set (fetched_by lib s0 sched) \<subseteq> {startURL a} \<and>
      siteGraph (audit s') = siteGraph a \<and>
      visited (audit s') =
        insert (url_String lib (startURL a))
          (if RespectRobots (config a)
           then insert (Scheme (startURL a) @ ''://'' @ Host (startURL a) @ ''/robots.txt'') (visited a)
           else visited a))"
proof -
  have 1: "i < length (workers s) \<and> pc (workers s ! i) = Dequeued t \<and>
      (fetcher (audit s) (task_u t) = Inl e \<or>
       (fetcher (audit s) (task_u t) = Inr resp \<and>
          (400 \<le> StatusCode resp \<or> extractor (audit s) (task_u t) (Body resp) = Inl e))) \<longrightarrow>
      audit (startWorker_step lib i s) = audit s \<and>
      pc (workers (startWorker_step lib i s) ! i) = LoopHead \<and>
      fetchTrace (startWorker_step lib i s) = fetchTrace s @ [task_u t] \<and>
      cancelled (startWorker_step lib i s) = cancelled s \<and>
      (\<forall>j. j \<noteq> i \<longrightarrow> workers (startWorker_step lib i s) ! j = workers s ! j)"
  proof (intro impI, elim conjE)
    assume len: "i < length (workers s)" and pc: "pc (workers s ! i) = Dequeued t"
      and bad: "fetcher (audit s) (task_u t) = Inl e \<or>
       (fetcher (audit s) (task_u t) = Inr resp \<and>
          (400 \<le> StatusCode resp \<or> extractor (audit s) (task_u t) (Body resp) = Inl e))"
    have "\<exists>w'. pc w' = LoopHead \<and> startWorker_step lib i s =
        s \<lparr> fetchTrace := fetchTrace s @ [task_u t], workers := (workers s)[i := w'] \<rparr>"
      using bad
    proof
      assume "fetcher (audit s) (task_u t) = Inl e"
      then have "startWorker_step lib i s =
        s \<lparr> fetchTrace := fetchTrace s @ [task_u t],
            workers := (workers s)[i := (workers s ! i) \<lparr> pc := LoopHead \<rparr>] \<rparr>"
        using len pc by (simp add: startWorker_step_def Let_def)
      then show ?thesis by (intro exI[of _ "(workers s ! i) \<lparr> pc := LoopHead \<rparr>"]) simp
    next
      assume r: "fetcher (audit s) (task_u t) = Inr resp \<and>
          (400 \<le> StatusCode resp \<or> extractor (audit s) (task_u t) (Body resp) = Inl e)"
      let ?w = "(workers s ! i) \<lparr> pc := LoopHead, deferred := resp # deferred (workers s ! i) \<rparr>"
      have "startWorker_step lib i s =
        s \<lparr> fetchTrace := fetchTrace s @ [task_u t], workers := (workers s)[i := ?w] \<rparr>"
      proof (cases "400 \<le> StatusCode resp")
        case True
        then show ?thesis using len pc r by (simp add: startWorker_step_def Let_def)
      next
        case False
        then have "extractor (audit s) (task_u t) (Body resp) = Inl e" using r by blast
        then show ?thesis using len pc r False by (simp add: startWorker_step_def Let_def)
      qed
      then show ?thesis by (intro exI[of _ ?w]) simp
    qed
    then obtain w' where w: "pc w' = LoopHead" "startWorker_step lib i s =
        s \<lparr> fetchTrace := fetchTrace s @ [task_u t], workers := (workers s)[i := w'] \<rparr>"
      by blast
    show "audit (startWorker_step lib i s) = audit s \<and>
      pc (workers (startWorker_step lib i s) ! i) = LoopHead \<and>
      fetchTrace (startWorker_step lib i s) = fetchTrace s @ [task_u t] \<and>
      cancelled (startWorker_step lib i s) = cancelled s \<and>
      (\<forall>j. j \<noteq> i \<longrightarrow> workers (startWorker_step lib i s) ! j = workers s ! j)"
      unfolding w(2) using len w(1) by simp
  qed
  have 2: "i < length (workers s) \<and> pc (workers s ! i) = Dequeued t \<and>
      fetcher (audit s) (task_u t) = Inr resp \<and> StatusCode resp < 400 \<and>
      extractor (audit s) (task_u t) (Body resp) = Inr links \<longrightarrow>
      audit (startWorker_step lib i s) = processLinks lib (audit s) t links \<and>
      pc (workers (startWorker_step lib i s) ! i) = LoopHead \<and>
      fetchTrace (startWorker_step lib i s) = fetchTrace s @ [task_u t] \<and>
      cancelled (startWorker_step lib i s) = cancelled s \<and>
      (\<forall>j. j \<noteq> i \<longrightarrow> workers (startWorker_step lib i s) ! j = workers s ! j)"
  proof (intro impI, elim conjE)
    assume len: "i < length (workers s)" and pc: "pc (workers s ! i) = Dequeued t"
      and f: "fetcher (audit s) (task_u t) = Inr resp" and c: "StatusCode resp < 400"
      and x: "extractor (audit s) (task_u t) (Body resp) = Inr links"
    let ?w = "(workers s ! i) \<lparr> pc := LoopHead, deferred := resp # deferred (workers s ! i) \<rparr>"
    have st: "startWorker_step lib i s =
        s \<lparr> fetchTrace := fetchTrace s @ [task_u t], audit := processLinks lib (audit s) t links,
            workers := (workers s)[i := ?w] \<rparr>"
      using len pc f c x by (simp add: startWorker_step_def Let_def)
    show "audit (startWorker_step lib i s) = processLinks lib (audit s) t links \<and>
      pc (workers (startWorker_step lib i s) ! i) = LoopHead \<and>
      fetchTrace (startWorker_step lib i s) = fetchTrace s @ [task_u t] \<and>
      cancelled (startWorker_step lib i s) = cancelled s \<and>
      (\<forall>j. j \<noteq> i \<longrightarrow> workers (startWorker_step lib i s) ! j = workers s ! j)"
      unfolding st using len by simp
  qed
  have 4: "Start lib sched a = Some (s', Some err) \<longrightarrow>
      RespectRobots (config a) \<and>
      (\<exists>e'. respectRobots lib (fresh a) = (s', Some e') \<and>
            err = WrapMsg ''failed to respect robots'' e')"
    using launch_error[OF Start_error] by blast
  have 5: "launch lib (fresh a) = (s0, None) \<and> tasks a = [] \<and> isl (fetcher a (startURL a)) \<and>
      Start lib sched a = Some (s', err') \<longrightarrow>
      err' = None \<and> set (fetched_by lib s0 sched) \<subseteq> {startURL a} \<and>
      siteGraph (audit s') = siteGraph a \<and>
      visited (audit s') =
        insert (url_String lib (startURL a))
          (if RespectRobots (config a)
           then insert (Scheme (startURL a) @ ''://'' @ Host (startURL a) @ ''/robots.txt'') (visited a)
           else visited a)"
  proof (intro impI, elim conjE)
    assume l: "launch lib (fresh a) = (s0, None)" and ta: "tasks a = []"
      and f: "isl (fetcher a (startURL a))" and st: "Start lib sched a = Some (s', err')"
    let ?T = "\<lparr> task_u = startURL a, task_depth = 0 \<rparr>"
    have s: "s' = run lib s0 sched" "err' = None"
      using st l by (cases rule: Start_cases; simp)+
    have f0: "isl (fetcher (audit s0) (task_u ?T))"
      using f launch_siteGraph(2)[OF l] by simp
    have t0: "set (tasks (audit s0)) \<subseteq> {?T}" using launch_ok(2)[OF l] ta by simp
    have h0: "set_mset (held s0) \<subseteq> {?T}"
      using held_replicate[OF launch_ok(1)[OF l]] by simp
    from stalled_run[OF f0 t0 h0, of lib sched] obtain more where
      v: "visited (audit (run lib s0 sched)) = visited (audit s0)"
      and g: "siteGraph (audit (run lib s0 sched)) = siteGraph (audit s0)"
      and m: "fetchTrace (run lib s0 sched) = fetchTrace s0 @ more" "set more \<subseteq> {task_u ?T}"
      by blast
    have fb: "set (fetched_by lib s0 sched) \<subseteq> {startURL a}"
      using m by (simp add: fetched_by_def)
    show "err' = None \<and> set (fetched_by lib s0 sched) \<subseteq> {startURL a} \<and>
      siteGraph (audit s') = siteGraph a \<and>
      visited (audit s') =
        insert (url_String lib (startURL a))
          (if RespectRobots (config a)
           then insert (Scheme (startURL a) @ ''://'' @ Host (startURL a) @ ''/robots.txt'') (visited a)
           else visited a)"
      unfolding s(1) v g using s(2) fb launch_siteGraph(1)[OF l] launch_visited[OF l] by simp
  qed
  show ?thesis by (rule conjI[OF 1 conjI[OF 2 conjI[OF Start_returns conjI[OF 4 5]]]])
qed

theorem per_task_errors_witness:
  "0 < length (workers (run test_lib (fst (launch test_lib (fresh failing_audit))) [Run 0])) \<and>
   pc (workers (run test_lib (fst (launch test_lib (fresh failing_audit))) [Run 0]) ! 0) = Dequeued seed_task \<and>
   fetcher (audit (run test_lib (fst (launch test_lib (fresh failing_audit))) [Run 0])) (task_u seed_task)
     = Inl (Foreign ''fetch error'') \<and>
   audit (run test_lib (fst (launch test_lib (fresh failing_audit))) [Run 0, Run 0]) =
     audit (run test_lib (fst (launch test_lib (fresh failing_audit))) [Run 0]) \<and>
   pc (workers (run test_lib (fst (launch test_lib (fresh failing_audit))) [Run 0, Run 0]) ! 0) = LoopHead \<and>
   0 < length (workers (run test_lib (fst (launch test_lib (fresh moved_audit))) [Run 0])) \<and>
   pc (workers (run test_lib (fst (launch test_lib (fresh moved_audit))) [Run 0]) ! 0) = Dequeued seed_task \<and>
   fetcher (audit (run test_lib (fst (launch test_lib (fresh moved_audit))) [Run 0])) (task_u seed_task)
     = Inr \<lparr> StatusCode = 302, Body = Inr ''to A'' \<rparr> \<and>
   extractor (audit (run test_lib (fst (launch test_lib (fresh moved_audit))) [Run 0])) (task_u seed_task)
     (Inr ''to A'') = Inr [''/page-a''] \<and>
   audit (run test_lib (fst (launch test_lib (fresh moved_audit))) [Run 0, Run 0]) =
     processLinks test_lib (audit (run test_lib (fst (launch test_lib (fresh moved_audit))) [Run 0]))
       seed_task [''/page-a''] \<and>
   snd (launch test_lib (fresh failing_audit)) = None \<and> tasks failing_audit = [] \<and>
   isl (fetcher failing_audit (startURL failing_audit)) \<and>
   snd (the (Start test_lib five_workers failing_audit)) = None \<and>
   visited (audit (fst (the (Start test_lib five_workers failing_audit)))) = {''https://example.com''} \<and>
   snd (launch test_lib (fresh stalled_audit)) = None \<and> tasks stalled_audit = [] \<and>
   isl (fetcher stalled_audit (startURL stalled_audit)) \<and>
   snd (the (Start test_lib five_workers stalled_audit)) = None \<and>
   visited (audit (fst (the (Start test_lib five_workers stalled_audit)))) =
     {''https://example.com'', ''https://example.com/robots.txt''}"
proof -
  let ?s = "run test_lib (fst (launch test_lib (fresh failing_audit))) [Run 0]"
  let ?m = "run test_lib (fst (launch test_lib (fresh moved_audit))) [Run 0]"
  have h: "0 < length (workers ?s)" "pc (workers ?s ! 0) = Dequeued seed_task"
    "fetcher (audit ?s) (task_u seed_task) = Inl (Foreign ''fetch error'')"
    by code_simp+
  have k: "0 < length (workers ?m)" "pc (workers ?m ! 0) = Dequeued seed_task"
    "fetcher (audit ?m) (task_u seed_task) = Inr \<lparr> StatusCode = 302, Body = Inr ''to A'' \<rparr>"
    "extractor (audit ?m) (task_u seed_task) (Inr ''to A'') = Inr [''/page-a'']"
    by code_simp+
  have r: "run test_lib (fst (launch test_lib (fresh failing_audit))) [Run 0, Run 0] =
      startWorker_step test_lib 0 ?s"
    "run test_lib (fst (launch test_lib (fresh moved_audit))) [Run 0, Run 0] =
      startWorker_step test_lib 0 ?m"
    by simp_all
  have lf: "snd (launch test_lib (fresh failing_audit)) = None" "tasks failing_audit = []"
    "isl (fetcher failing_audit (startURL failing_audit))"
    by code_simp+
  have ls: "snd (launch test_lib (fresh stalled_audit)) = None" "tasks stalled_audit = []"
    "isl (fetcher stalled_audit (startURL stalled_audit))"
    by code_simp+
  have lf': "launch test_lib (fresh failing_audit) = (fst (launch test_lib (fresh failing_audit)), None)"
    using lf(1) by (metis prod.collapse)
  have ls': "launch test_lib (fresh stalled_audit) = (fst (launch test_lib (fresh stalled_audit)), None)"
    using ls(1) by (metis prod.collapse)
  have "case Start test_lib five_workers failing_audit of None \<Rightarrow> False | Some (s, e) \<Rightarrow> True"
    by code_simp
  then obtain sf ef where sf: "Start test_lib five_workers failing_audit = Some (sf, ef)"
    by (auto split: option.splits)
  have "case Start test_lib five_workers stalled_audit of None \<Rightarrow> False | Some (s, e) \<Rightarrow> True"
    by code_simp
  then obtain ss es where ss: "Start test_lib five_workers stalled_audit = Some (ss, es)"
    by (auto split: option.splits)
  have vf: "insert (url_String test_lib (startURL failing_audit))
          (if RespectRobots (config failing_audit)
           then insert (Scheme (startURL failing_audit) @ ''://'' @ Host (startURL failing_audit) @ ''/robots.txt'')
                  (visited failing_audit)
           else visited failing_audit) = {''https://example.com''}"
    by (simp add: failing_audit_def audit_of_def test_config_def test_lib_def test_String_def seed_url_def)
  have vs: "insert (url_String test_lib (startURL stalled_audit))
          (if RespectRobots (config stalled_audit)
           then insert (Scheme (startURL stalled_audit) @ ''://'' @ Host (startURL stalled_audit) @ ''/robots.txt'')
                  (visited stalled_audit)
           else visited stalled_audit) = {''https://example.com'', ''https://example.com/robots.txt''}"
    by (simp add: stalled_audit_def audit_of_def test_config_def test_lib_def test_String_def seed_url_def)
  note p = per_task_errors[where i = 0 and s = ?s and t = seed_task and e = "Foreign ''fetch error''"
      and lib = test_lib and a = failing_audit and sched = five_workers
      and ?s0.0 = "fst (launch test_lib (fresh failing_audit))" and s' = sf and err' = ef]
  note q = per_task_errors[where i = 0 and s = ?m and t = seed_task
      and resp = "\<lparr> StatusCode = 302, Body = Inr ''to A'' \<rparr>" and lib = test_lib
      and links = "[''/page-a'']" and a = stalled_audit and sched = five_workers
      and ?s0.0 = "fst (launch test_lib (fresh stalled_audit))" and s' = ss and err' = es]
  have c1: "audit (startWorker_step test_lib 0 ?s) = audit ?s \<and>
      pc (workers (startWorker_step test_lib 0 ?s) ! 0) = LoopHead"
    using p h by blast
  have c2: "audit (startWorker_step test_lib 0 ?m) = processLinks test_lib (audit ?m) seed_task [''/page-a'']"
    using q k by simp
  have c3: "ef = None \<and> visited (audit sf) = {''https://example.com''}"
    using p lf' lf(2,3) sf unfolding vf by blast
  have c4: "es = None \<and> visited (audit ss) = {''https://example.com'', ''https://example.com/robots.txt''}"
    using q ls' ls(2,3) ss unfolding vs by blast
  show ?thesis unfolding r sf ss option.sel fst_conv snd_conv using h k c1 c2 lf ls c3 c4 by blast
qed

subsection \<open>C7: canonical keys\<close>

text \<open>
  C7, as stated, fails: the URLs with paths \<open>/a/\<close> and \<open>/a//\<close> differ only by a single
  trailing slash on a non-root path, and \<open>normaliseURL\<close> gives them different keys
  (\<open>https://example.com/a\<close> and \<open>https://example.com/a/\<close>), because it strips one slash.
\<close>

theorem normaliseURL_trailing_slash_counterexample:
  "normaliseURL \<lparr> Scheme = ''https'', Host = ''example.com'', Path = ''/a/'', RawQuery = [], Fragment = [] \<rparr>
   \<noteq> normaliseURL \<lparr> Scheme = ''https'', Host = ''example.com'', Path = ''/a//'', RawQuery = [], Fragment = [] \<rparr>"
  by (simp add: normaliseURL_def HasSuffix_def)

text \<open>
  C7, amended. Canonicalising the canonical form of a URL (the URL with the same scheme
  and host, the path of the key, and no query or fragment) gives the same key, for every
  URL whose path does not end in two slashes after some other character. Two URLs that
  differ by one trailing slash have the same key when the shorter path is the root or
  does not itself end in a slash. URLs that differ only in query and fragment have the
  same key. The key is scheme, \<open>://\<close>, host and the path, with the empty path mapped to
  \<open>/\<close> and one trailing slash of a longer path stripped.
\<close>

theorem normaliseURL_quotient:
  "(\<not> (2 < length (Path v) \<and> HasSuffix (Path v) ''//'') \<and>
      normaliseURL v = Scheme v @ ''://'' @ Host v @ p \<longrightarrow>
      normaliseURL (v \<lparr> Path := p, RawQuery := [], Fragment := [] \<rparr>) = normaliseURL v) \<and>
   (q \<noteq> [] \<and> (q = ''/'' \<or> \<not> HasSuffix q ''/'') \<longrightarrow>
      normaliseURL (v \<lparr> Path := q @ ''/'' \<rparr>) = normaliseURL (v \<lparr> Path := q \<rparr>)) \<and>
   (Scheme v = Scheme w \<and> Host v = Host w \<and> Path v = Path w \<longrightarrow>
      normaliseURL v = normaliseURL w) \<and>
   normaliseURL v = Scheme v @ ''://'' @ Host v @
     (if Path v = [] then ''/''
      else if 1 < length (Path v) \<and> HasSuffix (Path v) ''/'' then butlast (Path v)
      else Path v)"
  using normaliseURL_idem[of v p] normaliseURL_slash[of q v] normaliseURL_query[of v w] normaliseURL_key[of v]
  by blast

theorem normaliseURL_quotient_witness:
  "\<not> (2 < length ''/a/'' \<and> HasSuffix ''/a/'' ''//'') \<and>
   normaliseURL \<lparr> Scheme = ''https'', Host = ''example.com'', Path = ''/a/'', RawQuery = ''x=1'', Fragment = ''top'' \<rparr>
     = ''https'' @ ''://'' @ ''example.com'' @ ''/a'' \<and>
   normaliseURL \<lparr> Scheme = ''https'', Host = ''example.com'', Path = ''/a'', RawQuery = [], Fragment = [] \<rparr>
     = ''https://example.com/a'' \<and>
   ''/a'' \<noteq> [] \<and> \<not> HasSuffix ''/a'' ''/'' \<and>
   normaliseURL \<lparr> Scheme = ''https'', Host = ''example.com'', Path = ''/a/'', RawQuery = [], Fragment = [] \<rparr>
     = ''https://example.com/a''"
  using normaliseURL_quotient[of
      "\<lparr> Scheme = ''https'', Host = ''example.com'', Path = ''/a/'', RawQuery = ''x=1'', Fragment = ''top'' \<rparr>"
      "''/a''" "''/a''"
      "\<lparr> Scheme = ''https'', Host = ''example.com'', Path = ''/a/'', RawQuery = [], Fragment = [] \<rparr>"]
  by (simp add: HasSuffix_def normaliseURL_def)

subsection \<open>C8: no task is lost\<close>

text \<open>
  C8. With at least one worker and a context that is not cancelled, when \<open>Start\<close>
  returns from a crawl the queue is empty and no worker holds a task, and every task
  that was in the queue at any moment of the crawl has been fetched: after each prefix
  of the schedule, the URLs of the queued tasks are among the fetches made by the end.
  This holds for every schedule, hence also when a worker found the queue empty and
  returned while another worker was still processing a page.
\<close>

theorem no_task_lost:
  assumes "1 \<le> MaxWorkers (config a)" "Cancel \<notin> set sched"
    and "Start lib sched a = Some (s, None)"
  shows "tasks (audit s) = [] \<and> held s = {#} \<and>
    (\<forall>pre post. sched = pre @ post \<longrightarrow>
       mset (map task_u (tasks (audit (run lib (fst (launch lib (fresh a))) pre)))) \<subseteq>#
       mset (fetchTrace s))"
proof -
  from assms(3) obtain s0 where s0: "launch lib (fresh a) = (s0, None)"
    and s: "s = run lib s0 sched" and ar: "all_returned s"
    by (cases rule: Start_cases) simp_all
  have "quiescent s0" using launch_quiescent[OF s0 assms(1)] .
  then have q: "quiescent s" unfolding s by (rule quiescent_run)
  have nc: "\<not> cancelled s"
    unfolding s using launch_ok(3)[OF s0] by (simp add: cancelled_run[OF assms(2)])
  have "length (workers s) = nat (MaxWorkers (config a))"
    unfolding s using launch_ok(1)[OF s0] by simp
  then have "workers s \<noteq> []" using assms(1) by auto
  then have t: "tasks (audit s) = []" using q nc ar by (simp add: quiescent_def)
  have h: "held s = {#}" using ar by (rule all_returned_held)
  have acc: "accounted s = mset (fetchTrace s)" by (simp add: accounted_def t h)
  have "mset (map task_u (tasks (audit (run lib s0 pre)))) \<subseteq># mset (fetchTrace s)"
    if "sched = pre @ post" for pre post
  proof -
    have "mset (map task_u (tasks (audit (run lib s0 pre)))) \<subseteq># accounted (run lib s0 pre)"
      by (simp add: accounted_def)
    also have "\<dots> \<subseteq># accounted (run lib (run lib s0 pre) post)" by (rule accounted_run)
    also have "\<dots> = mset (fetchTrace s)" using acc that by (simp add: s run_append)
    finally show ?thesis .
  qed
  then show ?thesis using t h s0 by simp
qed

theorem no_task_lost_witness:
  "1 \<le> MaxWorkers (config chain_audit) \<and> Cancel \<notin> set five_workers \<and>
   tasks (audit (fst (the (Start test_lib five_workers chain_audit)))) = [] \<and>
   held (fst (the (Start test_lib five_workers chain_audit))) = {#} \<and>
   mset (map task_u (tasks (audit (run test_lib (fst (launch test_lib (fresh chain_audit)))
      [Run 0, Run 1, Run 0])))) \<subseteq>#
     mset (fetchTrace (fst (the (Start test_lib five_workers chain_audit))))"
proof -
  have w: "1 \<le> MaxWorkers (config chain_audit)"
    by (simp add: chain_audit_def audit_of_def test_config_def)
  have c: "Cancel \<notin> set five_workers" by (simp add: five_workers_def)
  have "case Start test_lib five_workers chain_audit of None \<Rightarrow> False | Some (s, e) \<Rightarrow> e = None"
    by code_simp
  then obtain s where s: "Start test_lib five_workers chain_audit = Some (s, None)"
    by (auto split: option.splits)
  have f: "five_workers = [Run 0, Run 1, Run 0] @ [Run 2, Run 3, Run 2, Run 0, Run 2, Run 4]"
    by (simp add: five_workers_def)
  note t = no_task_lost[OF w c s]
  from t have a: "tasks (audit s) = []" and b: "held s = {#}" by blast+
  from t have "\<forall>pre post. five_workers = pre @ post \<longrightarrow>
       mset (map task_u (tasks (audit (run test_lib (fst (launch test_lib (fresh chain_audit))) pre)))) \<subseteq>#
       mset (fetchTrace s)"
    by blast
  then have e: "mset (map task_u (tasks (audit (run test_lib (fst (launch test_lib (fresh chain_audit)))
      [Run 0, Run 1, Run 0])))) \<subseteq># mset (fetchTrace s)"
    using f by blast
  show ?thesis unfolding s option.sel fst_conv using w c a b e by blast
qed

subsection \<open>C9: release of response bodies\<close>

text \<open>
  C9 at the chain, worker 0 running alone. After it has fetched and processed the seed
  page, worker 0 dequeues page A while the body of the seed response is still waiting
  for its deferred \<open>Close\<close>; after page A two bodies are waiting; they are released only
  when the worker returns.
\<close>

theorem response_bodies_held_open:
  "pc (workers (run test_lib (fst (launch test_lib (fresh chain_audit))) [Run 0, Run 0, Run 0]) ! 0) =
     Dequeued page_a_task \<and>
   deferred (workers (run test_lib (fst (launch test_lib (fresh chain_audit))) [Run 0, Run 0, Run 0]) ! 0) =
     [\<lparr> StatusCode = 200, Body = Inr ''to A'' \<rparr>] \<and>
   deferred (workers (run test_lib (fst (launch test_lib (fresh chain_audit))) [Run 0, Run 0, Run 0, Run 0]) ! 0) =
     [\<lparr> StatusCode = 200, Body = Inr ''to B'' \<rparr>, \<lparr> StatusCode = 200, Body = Inr ''to A'' \<rparr>] \<and>
   deferred (workers (run test_lib (fst (launch test_lib (fresh chain_audit)))
     [Run 0, Run 0, Run 0, Run 0, Run 0]) ! 0) = []"
  by code_simp

subsection \<open>C10: a pool of zero workers\<close>

text \<open>
  C10. Where the checks before it pass, the constructor rejects a worker count with
  \<open>ErrInvalidMaxWorkers\<close> exactly when the count is negative, so a count of zero is
  accepted. For the \<open>Audit\<close> so constructed with robots compliance off, \<open>Start\<close> returns
  \<open>nil\<close> under every schedule, with no worker and no fetch made: the visited set holds
  the raw string of the seed URL only, the seed task is still in the queue, and the
  graph is empty.
\<close>

theorem zero_workers:
  assumes "url_Parse lib (StartURL c) = Inr start" "StartURL c \<noteq> []" "Scheme start \<noteq> []"
    and "MaxWorkers c = 0" "0 \<le> MaxDepth c" "\<not> RespectRobots c"
  shows "(\<forall>n. New lib (c \<lparr> MaxWorkers := n \<rparr>) (Some f) (Some e) = Inl ErrInvalidMaxWorkers \<longleftrightarrow> n < 0) \<and>
    (\<exists>a. New lib c (Some f) (Some e) = Inr a \<and>
       (\<forall>sched. \<exists>s. Start lib sched a = Some (s, None) \<and> workers s = [] \<and>
          fetchTrace s = [] \<and> visited (audit s) = {url_String lib start} \<and>
          tasks (audit s) = [\<lparr> task_u = start, task_depth = 0 \<rparr>] \<and>
          siteGraph (audit s) = []))"
proof (intro conjI allI)
  fix n
  show "New lib (c \<lparr> MaxWorkers := n \<rparr>) (Some f) (Some e) = Inl ErrInvalidMaxWorkers \<longleftrightarrow> n < 0"
    using assms(1,2,3) by (simp add: New_def)
next
  let ?a = "\<lparr> config = c, fetcher = f, extractor = e, startURL = start,
       schemes = (if ValidSchemes c \<noteq> [] then {''https''} \<union> set (Split (ValidSchemes c) CHR '','')
                  else {''https''}),
       robotsData = None, tasks = [], visited = {}, siteGraph = [] \<rparr> :: 'a Audit"
  have new: "New lib c (Some f) (Some e) = Inr ?a"
    using assms by (simp add: New_def)
  have nr: "\<not> RespectRobots (config ?a)" using assms(6) by simp
  have "\<exists>s. Start lib sched ?a = Some (s, None) \<and> workers s = [] \<and>
          fetchTrace s = [] \<and> visited (audit s) = {url_String lib start} \<and>
          tasks (audit s) = [\<lparr> task_u = start, task_depth = 0 \<rparr>] \<and>
          siteGraph (audit s) = []" for sched
  proof -
    obtain s0 where s0: "launch lib (fresh ?a) = (s0, None)" "workers s0 = []" "fetchTrace s0 = []"
      "visited (audit s0) = {url_String lib start}"
      "tasks (audit s0) = [\<lparr> task_u = start, task_depth = 0 \<rparr>]" "siteGraph (audit s0) = []"
      unfolding launch_no_robots[OF nr] using assms(4) by simp
    have r: "audit (run lib s0 sched) = audit s0" "workers (run lib s0 sched) = []"
      "fetchTrace (run lib s0 sched) = fetchTrace s0"
      using run_no_workers[OF s0(2), of lib sched] by simp_all
    have "Start lib sched ?a = Some (run lib s0 sched, None)"
      unfolding Start_def s0(1) by (simp add: all_returned_def r(2))
    then show ?thesis using r s0 by simp
  qed
  then show "\<exists>a. New lib c (Some f) (Some e) = Inr a \<and>
       (\<forall>sched. \<exists>s. Start lib sched a = Some (s, None) \<and> workers s = [] \<and>
          fetchTrace s = [] \<and> visited (audit s) = {url_String lib start} \<and>
          tasks (audit s) = [\<lparr> task_u = start, task_depth = 0 \<rparr>] \<and>
          siteGraph (audit s) = [])"
    using new by blast
qed

theorem zero_workers_witness:
  "url_Parse test_lib (StartURL (test_config \<lparr> MaxWorkers := 0 \<rparr>)) = Inr seed_url \<and>
   StartURL (test_config \<lparr> MaxWorkers := 0 \<rparr>) \<noteq> [] \<and> Scheme seed_url \<noteq> [] \<and>
   MaxWorkers (test_config \<lparr> MaxWorkers := 0 \<rparr>) = 0 \<and>
   0 \<le> MaxDepth (test_config \<lparr> MaxWorkers := 0 \<rparr>) \<and>
   \<not> RespectRobots (test_config \<lparr> MaxWorkers := 0 \<rparr>) \<and>
   New test_lib (test_config \<lparr> MaxWorkers := - 1 \<rparr>) (Some chain_fetch) (Some chain_extract) =
     Inl ErrInvalidMaxWorkers \<and>
   (\<exists>a. New test_lib (test_config \<lparr> MaxWorkers := 0 \<rparr>) (Some chain_fetch) (Some chain_extract) = Inr a \<and>
      (\<exists>s. Start test_lib five_workers a = Some (s, None) \<and> fetchTrace s = [] \<and>
         visited (audit s) = {''https://example.com''} \<and> tasks (audit s) = [seed_task] \<and>
         siteGraph (audit s) = []))"
proof -
  let ?c = "test_config \<lparr> MaxWorkers := 0 \<rparr>"
  have h: "url_Parse test_lib (StartURL ?c) = Inr seed_url" "StartURL ?c \<noteq> []"
    "Scheme seed_url \<noteq> []" "MaxWorkers ?c = 0" "0 \<le> MaxDepth ?c" "\<not> RespectRobots ?c"
    by (simp_all add: test_config_def test_lib_def test_Parse_def seed_url_def)
  have u: "url_String test_lib seed_url = ''https://example.com''"
    by (simp add: test_lib_def test_String_def seed_url_def)
  have m: "?c \<lparr> MaxWorkers := - 1 \<rparr> = test_config \<lparr> MaxWorkers := - 1 \<rparr>" by simp
  note z = zero_workers[OF h, of chain_fetch chain_extract]
  from z have "New test_lib (?c \<lparr> MaxWorkers := - 1 \<rparr>) (Some chain_fetch) (Some chain_extract) =
      Inl ErrInvalidMaxWorkers"
    by simp
  then have n: "New test_lib (test_config \<lparr> MaxWorkers := - 1 \<rparr>) (Some chain_fetch) (Some chain_extract) =
      Inl ErrInvalidMaxWorkers"
    by simp
  from z obtain a where a: "New test_lib ?c (Some chain_fetch) (Some chain_extract) = Inr a"
    and "\<forall>sched. \<exists>s. Start test_lib sched a = Some (s, None) \<and> workers s = [] \<and>
          fetchTrace s = [] \<and> visited (audit s) = {url_String test_lib seed_url} \<and>
          tasks (audit s) = [\<lparr> task_u = seed_url, task_depth = 0 \<rparr>] \<and>
          siteGraph (audit s) = []"
    by blast
  then obtain s where "Start test_lib five_workers a = Some (s, None)" "fetchTrace s = []"
      "visited (audit s) = {''https://example.com''}" "tasks (audit s) = [seed_task]"
      "siteGraph (audit s) = []"
    unfolding u seed_task_def by blast
  then have "\<exists>a. New test_lib ?c (Some chain_fetch) (Some chain_extract) = Inr a \<and>
      (\<exists>s. Start test_lib five_workers a = Some (s, None) \<and> fetchTrace s = [] \<and>
         visited (audit s) = {''https://example.com''} \<and> tasks (audit s) = [seed_task] \<and>
         siteGraph (audit s) = [])"
    using a by blast
  then show ?thesis using h n by blast
qed

end
